theory Spec2Isabelle
  imports Main "HOL-Library.Sublist"
begin

section \<open>JavaScript values\<close>

text \<open>
  The values that cross the wire and the request bodies are JSON. A missing property
  (JavaScript's \<open>undefined\<close>) is \<open>None\<close> of \<open>json option\<close>. Numbers are the
  integers: every number the modelled code computes with (request ids, catalog indices,
  lengths, millisecond clocks) is an integer far below \<open>2^53\<close>, where JavaScript numbers
  are exact.
\<close>

datatype json =
    JNull
  | JBool bool
  | JNum int
  | JStr string
  | JArr "json list"
  | JObj "(string \<times> json) list"

text \<open>Truthiness, as \<open>if (v)\<close>, \<open>!v\<close>, \<open>a && b\<close> and \<open>a || b\<close> test it.\<close>

fun truthy :: "json option \<Rightarrow> bool" where
  "truthy None = False"
| "truthy (Some JNull) = False"
| "truthy (Some (JBool b)) = b"
| "truthy (Some (JNum n)) = (n \<noteq> 0)"
| "truthy (Some (JStr s)) = (s \<noteq> [])"
| "truthy (Some (JArr _)) = True"
| "truthy (Some (JObj _)) = True"

text \<open>
  The property read \<open>v.k\<close> on a value that is neither \<open>null\<close> nor \<open>undefined\<close>
  (on those it throws, which each caller below handles by itself). \<open>JSON.parse\<close> keeps
  the last of a repeated key. Only the keys \<open>id\<close>, \<open>error\<close>, \<open>result\<close>, \<open>method\<close>,
  \<open>params\<close>, \<open>context\<close>, \<open>executionContextId\<close>, \<open>value\<close>, \<open>ok\<close>, \<open>reason\<close> are ever
  read, none of which a string, number, boolean or array has.
\<close>

fun field :: "json \<Rightarrow> string \<Rightarrow> json option" where
  "field (JObj kvs) k = map_of (rev kvs) k"
| "field _ k = None"

text \<open>
  The object \<open>{ ok: false, error: e }\<close>, which the bridge returns and the request
  handlers answer when they refuse.
\<close>

definition fail :: "string \<Rightarrow> json" where
  "fail e = JObj [(''ok'', JBool False), (''error'', JStr e)]"

section \<open>Printing numbers\<close>

text \<open>The character of a decimal digit; \<open>digits\<close> only asks for digits below ten.\<close>

definition digit_char :: "nat \<Rightarrow> char" where
  "digit_char d = ''0123456789'' ! d"

function digits :: "nat \<Rightarrow> string" where
  "digits n = (if n < 10 then [digit_char n] else digits (n div 10) @ [digit_char (n mod 10)])"
  by pat_completeness auto
termination
  by (relation "measure (\<lambda>n. n)") auto

declare digits.simps [simp del]

text \<open>\<open>String(n)\<close> on an integer: the decimal digits, with a sign when negative.\<close>

definition show_int :: "int \<Rightarrow> string" where
  "show_int n = (if n < 0 then CHR ''-'' # digits (nat (- n)) else digits (nat n))"

section \<open>The shared state document of \<open>server.mjs\<close>\<close>

text \<open>
  \<open>STATE\<close> holds \<open>messages\<close>, \<open>agent\<close>, \<open>actionQueue\<close>, \<open>delegations\<close> and \<open>outbox\<close>.
  The handlers modelled here never touch \<open>messages\<close> and \<open>outbox\<close>, which are left out.
  Instants (\<open>Date.now()\<close>, and the ISO strings of \<open>new Date().toISOString()\<close>, which
  \<open>new Date(s).getTime()\<close> reads back to the same millisecond) are integers of
  milliseconds.
\<close>

record agent =
  agent_state :: string
  lastSeen :: "int option"
  agent_task :: string
  busy :: bool

text \<open>
  An item of \<open>STATE.actionQueue\<close>: \<open>{id, text, from, addedAt}\<close>, and \<open>model\<close> on the
  items a delegation pushes (\<open>None\<close> is both an absent and a \<open>null\<close> model).
\<close>

record action =
  action_id :: string
  action_text :: string
  action_from :: string
  action_model :: "string option"
  addedAt :: int

datatype del_status = Pending | In_progress | Completed | Failed | Timeout

record delegation =
  del_id :: string
  target_tab :: string
  task :: string
  model :: "string option"
  modelIndex :: "int option"
  priority :: string
  timeout_ms :: int
  status :: del_status
  createdAt :: int
  startedAt :: "int option"
  acceptedAt :: "int option"
  completedAt :: "int option"
  result :: "json option"
  error :: "json option"

datatype event =
    Queue_update nat "string option"
  | Agent_state bool
  | Delegation_update delegation

datatype cdp_call = FocusTab string | Evaluate_model_switch int

text \<open>
  Besides the document, the state records what the handlers did to the outside: the
  document last handed to \<open>saveState\<close> (taken when \<open>saveState\<close> is called, where
  \<open>JSON.stringify(STATE)\<close> runs), the events given to \<open>broadcast\<close> in order, and the
  calls made into the bridge by the delegation handler.
\<close>

record server =
  agent :: agent
  actionQueue :: "action list"
  delegations :: "delegation list"
  saved :: "(agent \<times> action list \<times> delegation list) option"
  bus :: "event list"
  cdp :: "cdp_call list"

definition STATE :: server where
  "STATE = \<lparr>agent = \<lparr>agent_state = ''idle'', lastSeen = None, agent_task = [], busy = False\<rparr>,
            actionQueue = [], delegations = [], saved = None, bus = [], cdp = []\<rparr>"

definition saveState :: "server \<Rightarrow> server" where
  "saveState st = st\<lparr>saved := Some (agent st, actionQueue st, delegations st)\<rparr>"

definition broadcast :: "event \<Rightarrow> server \<Rightarrow> server" where
  "broadcast e st = st\<lparr>bus := bus st @ [e]\<rparr>"

section \<open>Strings\<close>

text \<open>
  Strings are sequences of ASCII characters, as every string of the model catalog is.
  \<open>toLowerCase\<close> maps \<open>A\<close>..\<open>Z\<close> to \<open>a\<close>..\<open>z\<close> and leaves the rest.
\<close>

definition lower_char :: "char \<Rightarrow> char" where
  "lower_char c = (let n = (of_char c :: nat) in if 65 \<le> n \<and> n \<le> 90 then char_of (n + 32) else c)"

definition toLowerCase :: "string \<Rightarrow> string" where
  "toLowerCase s = map lower_char s"

text \<open>\<open>hay.includes(needle)\<close>: \<open>needle\<close> occurs in \<open>hay\<close> as a contiguous run.\<close>

fun includes_str :: "string \<Rightarrow> string \<Rightarrow> bool" where
  "includes_str [] needle = (needle = [])"
| "includes_str (c # cs) needle = (prefix needle (c # cs) \<or> includes_str cs needle)"

section \<open>Delegations: the model catalog and its resolution\<close>

record model_entry =
  index :: int
  name :: string
  key :: string

definition AVAILABLE_MODELS :: "model_entry list" where
  "AVAILABLE_MODELS =
    [\<lparr>index = 0, name = ''Gemini 3 Pro (High)'', key = ''gemini-pro-high''\<rparr>,
     \<lparr>index = 1, name = ''Gemini 3 Pro (Low)'', key = ''gemini-pro-low''\<rparr>,
     \<lparr>index = 2, name = ''Gemini 3 Flash'', key = ''gemini-flash''\<rparr>,
     \<lparr>index = 3, name = ''Claude Sonnet 4.5'', key = ''claude-sonnet''\<rparr>,
     \<lparr>index = 4, name = ''Claude Sonnet 4.5 (Thinking)'', key = ''claude-sonnet-thinking''\<rparr>,
     \<lparr>index = 5, name = ''Claude Opus 4.5 (Thinking)'', key = ''claude-opus-thinking''\<rparr>,
     \<lparr>index = 6, name = ''GPT-OSS 120B (Medium)'', key = ''gpt-oss-120b''\<rparr>]"

text \<open>
  The \<open>model\<close> of a request body: absent or \<open>null\<close>, a number, a string, or anything
  else (a boolean, an array, an object), which the handler ignores.
\<close>

datatype selector = SelAbsent | SelNum int | SelStr string | SelOther

text \<open>
  \<open>Array.prototype.find\<close> gives the first entry that passes, or \<open>undefined\<close>, which the
  handler treats as no model (\<open>modelInfo ? ... : null\<close>).
\<close>

definition matches :: "string \<Rightarrow> model_entry \<Rightarrow> bool" where
  "matches s m \<longleftrightarrow>
     includes_str (toLowerCase (name m)) (toLowerCase s) \<or> toLowerCase (key m) = toLowerCase s"

fun resolveModel :: "selector \<Rightarrow> model_entry option" where
  "resolveModel SelAbsent = None"
| "resolveModel (SelNum n) = find (\<lambda>m. index m = n) AVAILABLE_MODELS"
| "resolveModel (SelStr s) = find (matches s) AVAILABLE_MODELS"
| "resolveModel SelOther = None"

section \<open>Delegations: create, list, complete, accept\<close>

text \<open>
  The body of \<open>POST /api/delegation\<close>. An absent string is the empty string (both are
  falsy), an absent or zero \<open>timeout_ms\<close> is \<open>None\<close> or \<open>Some 0\<close>.
\<close>

record create_req =
  req_target_tab :: string
  req_task :: string
  req_priority :: string
  req_timeout_ms :: "int option"
  req_model :: selector

text \<open>
  What \<open>cdpBridge.focusTab\<close> gave: \<open>{ok: true, ...}\<close>, \<open>{ok: false, error}\<close>, or an
  exception with its message.
\<close>

datatype focus_result = Focus_ok | Focus_failed string | Focus_threw string

text \<open>
  What the handler reads from the outside during one request: the generated id, the
  clock at each \<open>new Date()\<close>, and the outcome of the focus step. The handler awaits
  the bridge; the model runs one request to its end before the next starts.
\<close>

record create_env =
  new_id :: string
  created_time :: int
  focus :: focus_result
  started_time :: int
  added_time :: int

text \<open>
  The body a handler answers: \<open>{ok: true, delegation}\<close>, \<open>{ok: true, position}\<close>, or
  an object given key by key.
\<close>

datatype response =
    Ok_delegation delegation
  | Ok_position nat
  | Answer json

definition new_delegation :: "create_req \<Rightarrow> create_env \<Rightarrow> delegation" where
  "new_delegation req env =
     (let modelInfo = resolveModel (req_model req) in
      \<lparr>del_id = new_id env,
       target_tab = req_target_tab req,
       task = req_task req,
       model = map_option name modelInfo,
       modelIndex = map_option index modelInfo,
       priority = (if req_priority req = [] then ''normal'' else req_priority req),
       timeout_ms = (case req_timeout_ms req of None \<Rightarrow> 300000
                     | Some t \<Rightarrow> if t = 0 then 300000 else t),
       status = Pending,
       createdAt = created_time env,
       startedAt = None,
       acceptedAt = None,
       completedAt = None,
       result = None,
       error = None\<rparr>)"

text \<open>\<open>STATE.delegations.push(delegation); if (STATE.delegations.length > 50) STATE.delegations.shift();\<close>\<close>

definition push_delegation :: "delegation \<Rightarrow> server \<Rightarrow> server" where
  "push_delegation d st =
     (let ds = delegations st @ [d]
      in st\<lparr>delegations := (if length ds > 50 then tl ds else ds)\<rparr>)"

text \<open>
  The handler keeps the object it pushed and assigns to its fields later; the object is
  the last of the array, so the assignment replaces the last element.
\<close>

definition set_last :: "delegation \<Rightarrow> server \<Rightarrow> server" where
  "set_last d st =
     st\<lparr>delegations := (if delegations st = [] then [] else butlast (delegations st) @ [d])\<rparr>"

definition create :: "create_req \<Rightarrow> create_env \<Rightarrow> server \<Rightarrow> response \<times> server" where
  "create req env st =
     (if req_target_tab req = [] \<or> req_task req = [] then (Answer (fail ''missing_target_tab_or_task''), st)
      else
        let modelInfo = resolveModel (req_model req);
            d = new_delegation req env;
            st1 = saveState (push_delegation d st);
            st2 = st1\<lparr>cdp := cdp st1 @ [FocusTab (req_target_tab req)]\<rparr>
        in case focus env of
             Focus_failed e \<Rightarrow>
               (let d' = d\<lparr>status := Failed, error := Some (JStr (''Tab focus failed: '' @ e))\<rparr>
                in (Ok_delegation d', broadcast (Delegation_update d') (saveState (set_last d' st2))))
           | Focus_threw msg \<Rightarrow>
               (let d' = d\<lparr>status := Failed, error := Some (JStr msg)\<rparr>
                in (Ok_delegation d', broadcast (Delegation_update d') (saveState (set_last d' st2))))
           | Focus_ok \<Rightarrow>
               (let st3 = (case modelInfo of None \<Rightarrow> st2
                           | Some m \<Rightarrow> st2\<lparr>cdp := cdp st2 @ [Evaluate_model_switch (index m)]\<rparr>);
                    d' = d\<lparr>status := In_progress, startedAt := Some (started_time env)\<rparr>;
                    st4 = set_last d' st3;
                    st5 = st4\<lparr>actionQueue := actionQueue st4 @
                            [\<lparr>action_id = del_id d', action_text = req_task req,
                              action_from = ''delegation'', action_model = map_option name modelInfo,
                              addedAt = added_time env\<rparr>]\<rparr>
                in (Ok_delegation d', broadcast (Delegation_update d') (saveState st5))))"

text \<open>\<open>STATE.delegations.find(d => d.id === id)\<close>, as the position of the object found.\<close>

fun find_idx :: "('a \<Rightarrow> bool) \<Rightarrow> 'a list \<Rightarrow> nat option" where
  "find_idx P [] = None"
| "find_idx P (x # xs) = (if P x then Some 0 else map_option Suc (find_idx P xs))"

text \<open>
  \<open>GET /api/delegation\<close>. \<open>items\<close> is \<open>STATE.delegations\<close> or what \<open>filter\<close> keeps of
  it: the same objects, so \<open>items\<close> is the list of their positions. An absent or empty
  \<open>id\<close> or \<open>status\<close> does not filter; a \<open>status\<close> is one of the five the handlers
  assign (any other string would select nothing).
\<close>

definition selected :: "string \<Rightarrow> del_status option \<Rightarrow> delegation list \<Rightarrow> nat list" where
  "selected fid fstatus ds =
     filter (\<lambda>i. case fstatus of None \<Rightarrow> True | Some s \<Rightarrow> status (ds ! i) = s)
       (filter (\<lambda>i. fid = [] \<or> del_id (ds ! i) = fid) [0..<length ds])"

text \<open>
  The body of the loop on one object: \<open>Some\<close> of the object as assigned to, \<open>None\<close> when
  it is left alone. \<open>Math.round(elapsed / 1000)\<close> is \<open>floor (elapsed / 1000 + 1/2)\<close>.
\<close>

definition expire :: "int \<Rightarrow> delegation \<Rightarrow> delegation option" where
  "expire now d =
     (if status d = In_progress then
        (case startedAt d of
           None \<Rightarrow> None
         | Some t \<Rightarrow>
             (let elapsed = now - t
              in if elapsed > timeout_ms d
                 then Some (d\<lparr>status := Timeout,
                              error := Some (JStr (''Timeout after '' @ show_int ((elapsed + 500) div 1000) @ ''s''))\<rparr>)
                 else None))
      else None)"

fun check_items :: "int \<Rightarrow> nat list \<Rightarrow> server \<Rightarrow> server" where
  "check_items now [] st = st"
| "check_items now (i # is) st =
     (case expire now (delegations st ! i) of
        None \<Rightarrow> check_items now is st
      | Some d' \<Rightarrow> check_items now is (saveState (st\<lparr>delegations := (delegations st)[i := d']\<rparr>)))"

record summary =
  n_pending :: nat
  n_in_progress :: nat
  n_completed :: nat
  n_failed :: nat

definition summarise :: "delegation list \<Rightarrow> summary" where
  "summarise ds =
     \<lparr>n_pending = length (filter (\<lambda>d. status d = Pending) ds),
      n_in_progress = length (filter (\<lambda>d. status d = In_progress) ds),
      n_completed = length (filter (\<lambda>d. status d = Completed) ds),
      n_failed = length (filter (\<lambda>d. status d = Failed \<or> status d = Timeout) ds)\<rparr>"

definition list_delegations ::
  "string \<Rightarrow> del_status option \<Rightarrow> int \<Rightarrow> server \<Rightarrow> (delegation list \<times> summary) \<times> server" where
  "list_delegations fid fstatus now st =
     (let items = selected fid fstatus (delegations st);
          st' = check_items now items st
      in ((map (\<lambda>i. delegations st' ! i) items, summarise (delegations st')), st'))"

text \<open>\<open>POST /api/delegation/:id/complete\<close>; \<open>x || null\<close> keeps a truthy \<open>x\<close>.\<close>

definition or_null :: "json option \<Rightarrow> json option" where
  "or_null v = (if truthy v then v else None)"

definition complete ::
  "string \<Rightarrow> json option \<Rightarrow> json option \<Rightarrow> int \<Rightarrow> server \<Rightarrow> response \<times> server" where
  "complete fid res err now st =
     (case find_idx (\<lambda>d. del_id d = fid) (delegations st) of
        None \<Rightarrow> (Answer (fail ''not_found''), st)
      | Some i \<Rightarrow>
          (let d' = (delegations st ! i)
                      \<lparr>status := (if truthy err then Failed else Completed),
                       completedAt := Some now,
                       result := or_null res,
                       error := or_null err\<rparr>
           in (Ok_delegation d',
               broadcast (Delegation_update d')
                 (saveState (st\<lparr>delegations := (delegations st)[i := d']\<rparr>)))))"

text \<open>
  \<open>POST /api/delegation/:id/accept\<close>, with the clock of its two \<open>new Date()\<close> in the
  order they are read.
\<close>

definition accept :: "string \<Rightarrow> int \<Rightarrow> int \<Rightarrow> server \<Rightarrow> response \<times> server" where
  "accept fid accepted_time started st =
     (case find_idx (\<lambda>d. del_id d = fid) (delegations st) of
        None \<Rightarrow> (Answer (fail ''not_found''), st)
      | Some i \<Rightarrow>
          (if status (delegations st ! i) = Completed then (Answer (fail ''already_completed''), st)
           else
             let d' = (delegations st ! i)
                        \<lparr>status := In_progress,
                         acceptedAt := Some accepted_time,
                         startedAt := Some started\<rparr>
             in (Ok_delegation d',
                 broadcast (Delegation_update d')
                   (saveState (st\<lparr>delegations := (delegations st)[i := d']\<rparr>)))))"

section \<open>The timeout of a delegation, in the words of the specification\<close>

text \<open>
  A record is overdue at \<open>now\<close> when it is \<open>in_progress\<close> and \<open>now - startedAt\<close> exceeds
  its \<open>timeoutMs\<close>; it is then flipped to \<open>timeout\<close> with an elapsed-time message. A
  record is selected by a filter when it passes the filter's \<open>id\<close> and \<open>status\<close>, each
  only if given.
\<close>

definition spec_overdue :: "int \<Rightarrow> delegation \<Rightarrow> bool" where
  "spec_overdue now d \<longleftrightarrow>
     status d = In_progress \<and> (case startedAt d of None \<Rightarrow> False | Some t \<Rightarrow> now - t > timeout_ms d)"

definition spec_flipped :: "int \<Rightarrow> delegation \<Rightarrow> delegation" where
  "spec_flipped now d =
     d\<lparr>status := Timeout,
       error := Some (JStr (''Timeout after '' @
                  show_int ((now - (case startedAt d of None \<Rightarrow> 0 | Some t \<Rightarrow> t) + 500) div 1000) @ ''s''))\<rparr>"

definition spec_selected :: "string \<Rightarrow> del_status option \<Rightarrow> delegation \<Rightarrow> bool" where
  "spec_selected fid fstatus d \<longleftrightarrow>
     (fid = [] \<or> del_id d = fid) \<and> (case fstatus of None \<Rightarrow> True | Some s \<Rightarrow> status d = s)"

section \<open>Model resolution, in the words of the specification\<close>

text \<open>
  A string selects an entry when, up to the case of letters, it is a contiguous part of
  the entry's name or it is the entry's key.
\<close>

definition spec_matches :: "string \<Rightarrow> model_entry \<Rightarrow> bool" where
  "spec_matches s m \<longleftrightarrow>
     (\<exists>part. sublist part (name m) \<and> toLowerCase part = toLowerCase s)
     \<or> toLowerCase (key m) = toLowerCase s"

section \<open>The action queue\<close>

text \<open>
  \<open>POST /api/queue\<close>, with the clock of \<open>Date.now()\<close> and of \<open>new Date()\<close>. An absent
  \<open>text\<close> or \<open>from\<close> is the empty string.
\<close>

definition new_action :: "string \<Rightarrow> string \<Rightarrow> int \<Rightarrow> int \<Rightarrow> action" where
  "new_action txt frm id_time added =
     \<lparr>action_id = show_int id_time, action_text = txt,
      action_from = (if frm = [] then ''api'' else frm),
      action_model = None, addedAt = added\<rparr>"

definition enqueue :: "string \<Rightarrow> string \<Rightarrow> int \<Rightarrow> int \<Rightarrow> server \<Rightarrow> response \<times> server" where
  "enqueue txt frm id_time added st =
     (if txt = [] then (Answer (fail ''missing_text''), st)
      else
        let st1 = saveState (st\<lparr>actionQueue := actionQueue st @ [new_action txt frm id_time added]\<rparr>);
            st2 = broadcast (Queue_update (length (actionQueue st1)) None) st1
        in (Ok_position (length (actionQueue st2)), st2))"

text \<open>
  The queue processor's interval callback. It tests the queue and \<open>agent.busy\<close>, calls
  \<open>cdpBridge.injectMessage(action.text)\<close> and awaits it; what follows the \<open>await\<close> runs
  when the bridge has answered, with the state as it is then. \<open>injection\<close> is what the
  call resolved to. Reading \<open>injection.ok\<close> of \<open>null\<close> throws inside the \<open>try\<close>, whose
  \<open>catch\<close> only logs; \<open>shift()\<close> on an empty array removes nothing.
\<close>

definition tick_guard :: "server \<Rightarrow> bool" where
  "tick_guard st \<longleftrightarrow> actionQueue st \<noteq> [] \<and> \<not> busy (agent st)"

definition after_await :: "json \<Rightarrow> server \<Rightarrow> server" where
  "after_await injection st =
     (if injection = JNull then st
      else if truthy (field injection ''ok'') then
        (let st1 = saveState (st\<lparr>actionQueue := tl (actionQueue st)\<rparr>)
         in broadcast (Queue_update (length (actionQueue st1)) (Some ''success'')) st1)
      else if field injection ''error'' = Some (JStr ''busy'') then
        broadcast (Agent_state True) (st\<lparr>agent := (agent st)\<lparr>busy := True\<rparr>\<rparr>)
      else saveState (st\<lparr>actionQueue := tl (actionQueue st)\<rparr>))"

text \<open>A callback during whose \<open>await\<close> nothing else runs.\<close>

definition tick :: "json \<Rightarrow> server \<Rightarrow> server" where
  "tick injection st = (if tick_guard st then after_await injection st else st)"

text \<open>\<open>POST /api/stop\<close>: on each of its paths the agent is marked idle.\<close>

definition stop :: "server \<Rightarrow> server" where
  "stop st = saveState (broadcast (Agent_state False) (st\<lparr>agent := (agent st)\<lparr>busy := False\<rparr>\<rparr>))"

text \<open>
  The requests that reach the queue and the delegations, one at a time; \<open>Tick\<close> is a
  callback of the processor during whose \<open>await\<close> nothing else runs.
\<close>

datatype op =
    Enqueue string string int int
  | Tick json
  | Create create_req create_env
  | List_delegations string "del_status option" int
  | Complete string "json option" "json option" int
  | Accept string int int
  | Stop

fun step :: "op \<Rightarrow> server \<Rightarrow> server" where
  "step (Enqueue txt frm t1 t2) st = snd (enqueue txt frm t1 t2 st)"
| "step (Tick injection) st = tick injection st"
| "step (Create req env) st = snd (create req env st)"
| "step (List_delegations fid fstatus now) st = snd (list_delegations fid fstatus now st)"
| "step (Complete fid res err now) st = snd (complete fid res err now st)"
| "step (Accept fid t1 t2) st = snd (accept fid t1 t2 st)"
| "step Stop st = stop st"


fun run :: "op list \<Rightarrow> server \<Rightarrow> server" where
  "run [] st = st"
| "run (x # xs) st = run xs (step x st)"




section \<open>The connection manager: \<open>CdpBridge\<close>\<close>

text \<open>How a promise returned by \<open>send\<close> was settled.\<close>

datatype reject_reason = Remote json | Not_connected | Connection_closed

datatype outcome = Resolved_with "json option" | Rejected_with reject_reason

text \<open>
  The fields of the class. \<open>ws\<close> and \<open>reconnectTimer\<close> are whether the field holds an
  object. \<open>contexts\<close> and \<open>pendingRequests\<close> are \<open>Map\<close>s: their keys in insertion order,
  without repetition. An entry \<open>{resolve, reject}\<close> of \<open>pendingRequests\<close> belongs to the
  promise of the \<open>send\<close> that stored it and is named by its key; \<open>settled\<close> lists, in
  order, each call of an entry's \<open>resolve\<close> or \<open>reject\<close>. \<open>wire\<close> lists the frames
  written to the socket, \<open>timers\<close> counts the reconnect timeouts set and not yet fired.
\<close>

record bridge =
  ws :: bool
  contexts :: "(json option \<times> json) list"
  isConnected :: bool
  reconnectTimer :: bool
  requestId :: int
  pendingRequests :: "int list"
  settled :: "(int \<times> outcome) list"
  wire :: "(int \<times> string \<times> json) list"
  timers :: nat

definition CdpBridge :: bridge where
  "CdpBridge = \<lparr>ws = False, contexts = [], isConnected = False, reconnectTimer = False,
                 requestId = 1, pendingRequests = [], settled = [], wire = [], timers = 0\<rparr>"

definition scheduleReconnect :: "bridge \<Rightarrow> bridge" where
  "scheduleReconnect b =
     (if reconnectTimer b then b else b\<lparr>reconnectTimer := True, timers := timers b + 1\<rparr>)"

definition cleanup :: "bridge \<Rightarrow> bridge" where
  "cleanup b =
     b\<lparr>isConnected := False, contexts := [], ws := False,
       settled := settled b @ map (\<lambda>i. (i, Rejected_with Connection_closed)) (pendingRequests b),
       pendingRequests := []\<rparr>"

text \<open>
  \<open>send\<close>: \<open>Inl\<close> is the promise rejected at once, \<open>Inr rid\<close> the promise left pending
  under the id \<open>rid\<close>. \<open>Map.set\<close> on a key already there keeps the key's place.
\<close>

definition send :: "string \<Rightarrow> json \<Rightarrow> bridge \<Rightarrow> (reject_reason + int) \<times> bridge" where
  "send method params b =
     (if \<not> isConnected b \<or> \<not> ws b then (Inl Not_connected, b)
      else
        let rid = requestId b
        in (Inr rid,
            b\<lparr>requestId := rid + 1,
              pendingRequests := (if rid \<in> set (pendingRequests b) then pendingRequests b
                                  else pendingRequests b @ [rid]),
              wire := wire b @ [(rid, method, params)]\<rparr>))"

text \<open>\<open>Map.set\<close> and \<open>Map.delete\<close> on the context registry.\<close>

definition map_set :: "'k \<Rightarrow> 'v \<Rightarrow> ('k \<times> 'v) list \<Rightarrow> ('k \<times> 'v) list" where
  "map_set k v m =
     (if k \<in> fst ` set m then map (\<lambda>(k', v'). if k' = k then (k', v) else (k', v')) m
      else m @ [(k, v)])"

definition map_delete :: "'k \<Rightarrow> ('k \<times> 'v) list \<Rightarrow> ('k \<times> 'v) list" where
  "map_delete k m = filter (\<lambda>(k', v'). k' \<noteq> k) m"

text \<open>
  The three notifications, after the response branch did not return. Reading a property
  of \<open>undefined\<close> or \<open>null\<close> throws; the \<open>catch\<close> of \<open>handleMessage\<close> logs, and the
  state is as before the throw.
\<close>

definition handle_event :: "json \<Rightarrow> bridge \<Rightarrow> bridge" where
  "handle_event msg b =
     (if field msg ''method'' = Some (JStr ''Runtime.executionContextCreated'') then
        (case field msg ''params'' of
           None \<Rightarrow> b
         | Some JNull \<Rightarrow> b
         | Some params \<Rightarrow>
             (case field params ''context'' of
                None \<Rightarrow> b
              | Some JNull \<Rightarrow> b
              | Some ctx \<Rightarrow> b\<lparr>contexts := map_set (field ctx ''id'') ctx (contexts b)\<rparr>))
      else if field msg ''method'' = Some (JStr ''Runtime.executionContextDestroyed'') then
        (case field msg ''params'' of
           None \<Rightarrow> b
         | Some JNull \<Rightarrow> b
         | Some params \<Rightarrow>
             b\<lparr>contexts := map_delete (field params ''executionContextId'') (contexts b)\<rparr>)
      else if field msg ''method'' = Some (JStr ''Runtime.executionContextsCleared'') then
        b\<lparr>contexts := []\<rparr>
      else b)"

text \<open>
  \<open>handleMessage(raw)\<close>, on what \<open>JSON.parse(raw)\<close> gives: \<open>None\<close> when it throws. A
  parsed \<open>null\<close> throws at \<open>msg.id\<close>. The keys of \<open>pendingRequests\<close> are numbers, so
  only a number \<open>id\<close> can be among them.
\<close>

definition handleMessage :: "json option \<Rightarrow> bridge \<Rightarrow> bridge" where
  "handleMessage raw b =
     (case raw of
        None \<Rightarrow> b
      | Some JNull \<Rightarrow> b
      | Some msg \<Rightarrow>
          (case field msg ''id'' of
             Some (JNum n) \<Rightarrow>
               if n \<noteq> 0 \<and> n \<in> set (pendingRequests b) then
                 b\<lparr>pendingRequests := removeAll n (pendingRequests b),
                   settled := settled b @
                     [(n, case field msg ''error'' of
                            None \<Rightarrow> Resolved_with (field msg ''result'')
                          | Some e \<Rightarrow> if truthy (Some e) then Rejected_with (Remote e)
                                      else Resolved_with (field msg ''result''))]\<rparr>
               else handle_event msg b
           | _ \<Rightarrow> handle_event msg b))"

text \<open>
  \<open>connect()\<close>, by what \<open>findTarget\<close> gave: no target (or an exception on the way)
  schedules a reconnect; a target creates the socket, whose events come later.
\<close>

datatype target = No_target | Found

definition connect :: "target \<Rightarrow> bridge \<Rightarrow> bridge" where
  "connect t b = (case t of No_target \<Rightarrow> scheduleReconnect b | Found \<Rightarrow> b\<lparr>ws := True\<rparr>)"

definition initializeSession :: "bridge \<Rightarrow> bridge" where
  "initializeSession b = snd (send ''Runtime.enable'' (JObj []) b)"

text \<open>The socket's handlers, and the callback of the reconnect timeout up to its call of \<open>connect()\<close>.\<close>

definition on_open :: "bridge \<Rightarrow> bridge" where
  "on_open b = initializeSession (b\<lparr>isConnected := True\<rparr>)"

definition on_close :: "bridge \<Rightarrow> bridge" where
  "on_close b = scheduleReconnect (cleanup b)"

definition on_error :: "bridge \<Rightarrow> bridge" where
  "on_error b = b"

definition on_timer :: "bridge \<Rightarrow> bridge" where
  "on_timer b =
     (if timers b = 0 then b else b\<lparr>reconnectTimer := False, timers := timers b - 1\<rparr>)"

text \<open>
  The events of the bridge, one at a time. \<open>connect()\<close> awaits \<open>findTarget\<close>:
  \<open>Find_target t\<close> is its answer arriving, after \<open>start()\<close> or after the timeout's
  callback, which clears \<open>reconnectTimer\<close> and calls \<open>connect()\<close>; other events may
  come in between.
\<close>

datatype bridge_event =
    Find_target target
  | Socket_open
  | Socket_message "json option"
  | Socket_close
  | Socket_error
  | Timer_fired
  | Send string json

fun bridge_step :: "bridge_event \<Rightarrow> bridge \<Rightarrow> bridge" where
  "bridge_step (Find_target t) b = connect t b"
| "bridge_step Socket_open b = on_open b"
| "bridge_step (Socket_message raw) b = handleMessage raw b"
| "bridge_step Socket_close b = on_close b"
| "bridge_step Socket_error b = on_error b"
| "bridge_step Timer_fired b = on_timer b"
| "bridge_step (Send method params) b = snd (send method params b)"

fun bridge_run :: "bridge_event list \<Rightarrow> bridge \<Rightarrow> bridge" where
  "bridge_run [] b = b"
| "bridge_run (e # es) b = bridge_run es (bridge_step e b)"

text \<open>The ids \<open>send\<close> returned along a sequence of calls, \<open>None\<close> for a call rejected at once.\<close>

fun send_all :: "(string \<times> json) list \<Rightarrow> bridge \<Rightarrow> int option list \<times> bridge" where
  "send_all [] b = ([], b)"
| "send_all ((method, params) # rest) b =
     (let (r, b') = send method params b;
          (rs, b'') = send_all rest b'
      in ((case r of Inl _ \<Rightarrow> None | Inr rid \<Rightarrow> Some rid) # rs, b''))"

text \<open>
  What holds of a bridge between events: the ids under which requests are pending are
  distinct, positive and below the counter; no entry was settled twice; no settled entry is
  still pending; the ids written to the socket increase, and each of them is either pending
  or settled; and a reconnect timeout is outstanding exactly when \<open>reconnectTimer\<close> is set.
\<close>

definition session_inv :: "bridge \<Rightarrow> bool" where
  "session_inv b \<longleftrightarrow>
     0 < requestId b
     \<and> distinct (pendingRequests b)
     \<and> (\<forall>i\<in>set (pendingRequests b). 0 < i)
     \<and> distinct (map fst (settled b))
     \<and> set (pendingRequests b) \<inter> fst ` set (settled b) = {}
     \<and> sorted_wrt (<) (map fst (wire b))
     \<and> (\<forall>i\<in>fst ` set (wire b). 0 < i \<and> i < requestId b)
     \<and> set (pendingRequests b) \<union> fst ` set (settled b) = fst ` set (wire b)
     \<and> timers b = (if reconnectTimer b then 1 else 0)"

section \<open>The multi-context executor of the bridge\<close>

text \<open>
  The two \<open>Runtime.evaluate\<close> requests \<open>tryInjectAnyContext\<close> sends for a context: the
  quick check for an input element, and the injection expression itself. The host's
  answer to \<open>await this.send(...)\<close> is the \<open>result\<close> of the response frame, or a rejection
  (a remote error, a closed connection, no connection).
\<close>

datatype request_kind = Check | Inject

datatype reply = Rejected | Resolved "json option"

text \<open>
  \<open>r.result && r.result.value\<close> for what \<open>send\<close> resolved to: \<open>None\<close> when reading
  \<open>r.result\<close> throws (\<open>r\<close> is \<open>undefined\<close> or \<open>null\<close>), which the \<open>catch\<close> around the
  loop body swallows. Only the truthiness of a falsy outcome is used.
\<close>

definition result_value :: "json option \<Rightarrow> json option option" where
  "result_value r =
     (case r of
        None \<Rightarrow> None
      | Some JNull \<Rightarrow> None
      | Some v \<Rightarrow>
          Some (case field v ''result'' of
                  None \<Rightarrow> None
                | Some ro \<Rightarrow> if truthy (Some ro) then field ro ''value'' else None))"

text \<open>
  What a call does to the outside, in order: \<open>Sweep\<close> marks each call of
  \<open>tryInjectAnyContext\<close>, \<open>Evaluate c k\<close> is a \<open>Runtime.evaluate\<close> sent for context \<open>c\<close>,
  \<open>Wait n\<close> is a \<open>setTimeout\<close> of \<open>n\<close> milliseconds awaited.
\<close>

datatype 'c trace_event = Sweep | Evaluate 'c request_kind | Wait nat

definition after :: "'c trace_event list \<Rightarrow> json \<times> 'c trace_event list \<Rightarrow> json \<times> 'c trace_event list" where
  "after evs r = (fst r, evs @ snd r)"

text \<open>The loop of \<open>tryInjectAnyContext\<close> over the reversed keys; \<open>continue\<close> is the recursive call.\<close>

fun try_contexts :: "('c \<Rightarrow> request_kind \<Rightarrow> reply) \<Rightarrow> 'c list \<Rightarrow> json \<times> 'c trace_event list" where
  "try_contexts host [] = (fail ''not_found'', [])"
| "try_contexts host (contextId # rest) =
     (case host contextId Check of
        Rejected \<Rightarrow> after [Evaluate contextId Check] (try_contexts host rest)
      | Resolved check \<Rightarrow>
          (case result_value check of
             None \<Rightarrow> after [Evaluate contextId Check] (try_contexts host rest)
           | Some present \<Rightarrow>
               if \<not> truthy present then after [Evaluate contextId Check] (try_contexts host rest)
               else
                 (case host contextId Inject of
                    Rejected \<Rightarrow>
                      after [Evaluate contextId Check, Evaluate contextId Inject] (try_contexts host rest)
                  | Resolved res \<Rightarrow>
                      (case result_value res of
                         None \<Rightarrow>
                           after [Evaluate contextId Check, Evaluate contextId Inject] (try_contexts host rest)
                       | Some None \<Rightarrow>
                           after [Evaluate contextId Check, Evaluate contextId Inject] (try_contexts host rest)
                       | Some (Some v) \<Rightarrow>
                           if truthy (Some v) \<and> truthy (field v ''ok'')
                           then (v, [Evaluate contextId Check, Evaluate contextId Inject])
                           else if truthy (Some v) \<and> field v ''reason'' = Some (JStr ''busy_cancel_visible'')
                           then (fail ''busy'', [Evaluate contextId Check, Evaluate contextId Inject])
                           else after [Evaluate contextId Check, Evaluate contextId Inject]
                                  (try_contexts host rest)))))"

text \<open>
  One sweep. What it meets is the keys of \<open>this.contexts\<close> when it starts, in insertion
  order (a \<open>Map\<close> has no repeated key), and the host's answers during it.
\<close>

type_synonym 'c sweep_env = "'c list \<times> ('c \<Rightarrow> request_kind \<Rightarrow> reply)"

definition tryInjectAnyContext :: "'c sweep_env \<Rightarrow> json \<times> 'c trace_event list" where
  "tryInjectAnyContext env =
     (let contextIds = fst env
      in if contextIds = [] then (fail ''no_contexts'', [Sweep])
         else after [Sweep] (try_contexts (snd env) (rev contextIds)))"

definition attempts :: nat where
  "attempts = 3"

text \<open>
  The \<open>for\<close> loop of \<open>injectMessage\<close> from its counter \<open>i\<close> on. The registry and the host
  change between sweeps (context notifications arrive while the call awaits), so each
  sweep has an environment of its own: the sweeps of round \<open>i\<close> are the sweeps \<open>2 * i\<close>
  and \<open>2 * i + 1\<close> of the call.
\<close>

function inject_from :: "(nat \<Rightarrow> 'c sweep_env) \<Rightarrow> nat \<Rightarrow> json \<times> 'c trace_event list" where
  "inject_from envs i =
     (if i < attempts then
        (let first = tryInjectAnyContext (envs (2 * i))
         in if truthy (field (fst first) ''ok'') then first
            else if field (fst first) ''error'' = Some (JStr ''busy'') then first
            else
              (let second = after (snd first @ [Wait 1000]) (tryInjectAnyContext (envs (2 * i + 1)))
               in if truthy (field (fst second) ''ok'') then second
                  else after (snd second) (inject_from envs (i + 1))))
      else (fail ''editor_not_found_in_any_context'', []))"
  by pat_completeness auto
termination
  by (relation "measure (\<lambda>(envs, i). attempts - i)") auto

declare inject_from.simps [simp del]

definition injectMessage :: "bool \<Rightarrow> (nat \<Rightarrow> 'c sweep_env) \<Rightarrow> json \<times> 'c trace_event list" where
  "injectMessage connected envs =
     (if \<not> connected then (fail ''not_connected'', []) else inject_from envs 0)"

definition sweeps :: "'c trace_event list \<Rightarrow> nat" where
  "sweeps t = length (filter (\<lambda>e. e = Sweep) t)"

fun waits :: "'c trace_event list \<Rightarrow> nat list" where
  "waits [] = []"
| "waits (Wait n # t) = n # waits t"
| "waits (_ # t) = waits t"

fun injected :: "'c trace_event list \<Rightarrow> 'c list" where
  "injected [] = []"
| "injected (Evaluate c Inject # t) = c # injected t"
| "injected (_ # t) = injected t"

section \<open>Concrete requests and states\<close>

definition example_req :: create_req where
  "example_req = \<lparr>req_target_tab = ''Agent'', req_task = ''check inbox'', req_priority = [],
                   req_timeout_ms = Some 100, req_model = SelAbsent\<rparr>"

definition example_env :: create_env where
  "example_env = \<lparr>new_id = ''del_b'', created_time = 1000, focus = Focus_ok,
                   started_time = 1600, added_time = 1601\<rparr>"

definition old_delegation :: "del_status \<Rightarrow> delegation" where
  "old_delegation s =
     \<lparr>del_id = ''del_a'', target_tab = ''Agent'', task = ''summarise'', model = None,
      modelIndex = None, priority = ''normal'', timeout_ms = 300000, status = s,
      createdAt = 10, startedAt = Some 20, acceptedAt = None, completedAt = None,
      result = None, error = None\<rparr>"

definition full_state :: server where
  "full_state = STATE\<lparr>delegations := old_delegation Completed # replicate 49 (old_delegation In_progress)\<rparr>"



definition queued_state :: "bool \<Rightarrow> server" where
  "queued_state b =
     STATE\<lparr>agent := (agent STATE)\<lparr>busy := b\<rparr>,
           actionQueue := [new_action ''check inbox'' [] 5000 5000]\<rparr>"

definition created_state :: server where
  "created_state = snd (create example_req example_env STATE)"

definition unmatched_req :: create_req where
  "unmatched_req = example_req\<lparr>req_model := SelStr ''llama''\<rparr>"

text \<open>
  Hosts for one context: one where the quick check finds no input element, one where it
  does and the injection reports the cancel button (the agent is busy).
\<close>

definition evaluated :: "json \<Rightarrow> reply" where
  "evaluated v = Resolved (Some (JObj [(''result'', JObj [(''type'', JStr ''object''), (''value'', v)])]))"

definition idle_host :: "int \<Rightarrow> request_kind \<Rightarrow> reply" where
  "idle_host c k = evaluated (JBool False)"

definition busy_host :: "int \<Rightarrow> request_kind \<Rightarrow> reply" where
  "busy_host c k =
     (case k of
        Check \<Rightarrow> evaluated (JBool True)
      | Inject \<Rightarrow> evaluated (JObj [(''ok'', JBool False), (''reason'', JStr ''busy_cancel_visible'')]))"

definition never_found :: "nat \<Rightarrow> int sweep_env" where
  "never_found j = ([1], idle_host)"

definition busy_at :: "nat \<Rightarrow> nat \<Rightarrow> int sweep_env" where
  "busy_at k j = ([1], if j = k then busy_host else idle_host)"

text \<open>A live session with two requests pending, and a response to the second.\<close>

definition live_session :: bridge where
  "live_session =
     bridge_run [Find_target Found, Socket_open, Send ''Runtime.evaluate'' (JObj [])] CdpBridge"

definition response_2 :: json where
  "response_2 = JObj [(''id'', JNum 2), (''result'', JObj [(''result'', JObj [(''value'', JBool True)])])]"

definition error_2 :: json where
  "error_2 = JObj [(''id'', JNum 2), (''error'', JObj [(''code'', JNum (- 32000)), (''message'', JStr ''Cannot find context'')])]"

definition other_delegation :: delegation where
  "other_delegation = (old_delegation In_progress)\<lparr>del_id := ''del_x'', task := ''translate''\<rparr>"

definition three_delegations :: "del_status \<Rightarrow> server" where
  "three_delegations s =
     STATE\<lparr>delegations := [other_delegation, old_delegation s, old_delegation Pending]\<rparr>"

section \<open>The delegations collection\<close>

lemma delegations_saveState [simp]: "delegations (saveState st) = delegations st"
  by (simp add: saveState_def)

lemma delegations_broadcast [simp]: "delegations (broadcast e st) = delegations st"
  by (simp add: broadcast_def)

lemma delegations_push:
  "delegations (push_delegation d st) =
     (if length (delegations st) < 50 then delegations st else tl (delegations st)) @ [d]"
  by (cases "delegations st") (auto simp: push_delegation_def Let_def)

lemma delegations_set_last:
  "delegations st = xs @ [d] \<Longrightarrow> delegations (set_last d' st) = xs @ [d']"
  by (simp add: set_last_def)

lemma create_delegations:
  assumes "req_target_tab req \<noteq> []" "req_task req \<noteq> []"
  shows "case fst (create req env st) of
           Ok_delegation d' \<Rightarrow>
             delegations (snd (create req env st)) =
               (if length (delegations st) < 50 then delegations st else tl (delegations st)) @ [d']
         | _ \<Rightarrow> False"
proof -
  let ?keep = "if length (delegations st) < 50 then delegations st else tl (delegations st)"
  let ?d = "new_delegation req env"
  let ?st1 = "saveState (push_delegation ?d st)"
  let ?st2 = "?st1\<lparr>cdp := cdp ?st1 @ [FocusTab (req_target_tab req)]\<rparr>"
  have st2: "delegations ?st2 = ?keep @ [?d]"
    by (simp add: delegations_push)
  show ?thesis
  proof (cases "focus env")
    case Focus_ok
    let ?st3 = "case resolveModel (req_model req) of None \<Rightarrow> ?st2
                | Some m \<Rightarrow> ?st2\<lparr>cdp := cdp ?st2 @ [Evaluate_model_switch (index m)]\<rparr>"
    have "delegations ?st3 = ?keep @ [?d]"
      using st2 by (simp split: option.split)
    then show ?thesis
      using assms Focus_ok by (simp add: create_def Let_def delegations_set_last)
  next
    case (Focus_failed e)
    then show ?thesis
      using assms st2 by (simp add: create_def Let_def delegations_set_last)
  next
    case (Focus_threw m)
    then show ?thesis
      using assms st2 by (simp add: create_def Let_def delegations_set_last)
  qed
qed

lemma create_missing_fields:
  "req_target_tab req = [] \<or> req_task req = [] \<Longrightarrow>
     create req env st = (Answer (fail ''missing_target_tab_or_task''), st)"
  by (auto simp: create_def)

lemma create_length:
  "length (delegations st) \<le> 50 \<Longrightarrow> length (delegations (snd (create req env st))) \<le> 50"
proof (cases "req_target_tab req = [] \<or> req_task req = []")
  case True
  assume "length (delegations st) \<le> 50"
  with True show ?thesis by (auto simp: create_def)
next
  case False
  assume le: "length (delegations st) \<le> 50"
  from False have v: "req_target_tab req \<noteq> []" "req_task req \<noteq> []" by auto
  from create_delegations[OF v, of env st] le show ?thesis
    by (auto split: response.splits if_splits)
qed

lemma check_items_other [simp]:
  "agent (check_items now is st) = agent st"
  "actionQueue (check_items now is st) = actionQueue st"
  "bus (check_items now is st) = bus st"
  "cdp (check_items now is st) = cdp st"
  "length (delegations (check_items now is st)) = length (delegations st)"
  by (induction "is" arbitrary: st; auto simp: saveState_def split: option.splits)+

lemma step_length:
  "length (delegations st) \<le> 50 \<Longrightarrow> length (delegations (step x st)) \<le> 50"
proof (cases x)
  case (Create req env)
  assume "length (delegations st) \<le> 50"
  with Create show ?thesis by (simp add: create_length)
qed (auto simp: enqueue_def tick_def tick_guard_def after_await_def Let_def list_delegations_def complete_def accept_def stop_def
      broadcast_def saveState_def split: option.splits)

lemma run_length:
  "length (delegations st) \<le> 50 \<Longrightarrow> length (delegations (run xs st)) \<le> 50"
  by (induction xs arbitrary: st) (auto simp: step_length)


text \<open>
  C10. A create whose request names a target tab and a task appends the new record and,
  when the collection then holds more than 50 records, drops the oldest one, whatever its
  status; a collection of at most 50 records holds at most 50 after any create; and from
  the initial state, whatever requests and ticks are served, it never holds more than 50.
\<close>

theorem delegations_capped_at_50:
  "(req_target_tab req \<noteq> [] \<and> req_task req \<noteq> [] \<longrightarrow>
      (case fst (create req env st) of
         Ok_delegation d' \<Rightarrow>
           delegations (snd (create req env st)) =
             (if length (delegations st) < 50 then delegations st else tl (delegations st)) @ [d']
       | _ \<Rightarrow> False))
   \<and> (length (delegations st) \<le> 50 \<longrightarrow> length (delegations (snd (create req env st))) \<le> 50)
   \<and> length (delegations (run xs STATE)) \<le> 50"
proof -
  have "length (delegations STATE) \<le> 50" by (simp add: STATE_def)
  then have "length (delegations (run xs STATE)) \<le> 50" by (rule run_length)
  then show ?thesis using create_delegations[of req env st] create_length[of st req env] by blast
qed

theorem delegations_capped_at_50_witness:
  "req_target_tab example_req \<noteq> [] \<and> req_task example_req \<noteq> []
   \<and> length (delegations full_state) = 50
   \<and> hd (delegations full_state) = old_delegation Completed
   \<and> fst (create example_req example_env full_state) =
        Ok_delegation ((new_delegation example_req example_env)\<lparr>status := In_progress, startedAt := Some 1600\<rparr>)
   \<and> delegations (snd (create example_req example_env full_state)) =
        replicate 49 (old_delegation In_progress) @
          [(new_delegation example_req example_env)\<lparr>status := In_progress, startedAt := Some 1600\<rparr>]
   \<and> length (delegations (snd (create example_req example_env full_state))) = 50
   \<and> length (delegations (run [Create example_req example_env] STATE)) = 1"
proof -
  have v: "req_target_tab example_req \<noteq> [] \<and> req_task example_req \<noteq> []"
    by (simp add: example_req_def)
  have len: "length (delegations full_state) = 50"
    by (simp add: full_state_def)
  have hd: "hd (delegations full_state) = old_delegation Completed" "tl (delegations full_state) = replicate 49 (old_delegation In_progress)"
    by (simp_all add: full_state_def)
  have r: "fst (create example_req example_env full_state) =
        Ok_delegation ((new_delegation example_req example_env)\<lparr>status := In_progress, startedAt := Some 1600\<rparr>)"
    by (simp add: create_def example_req_def example_env_def Let_def broadcast_def saveState_def)
  have one: "length (delegations (run [Create example_req example_env] STATE)) = 1"
    by (simp add: create_def example_req_def example_env_def Let_def broadcast_def saveState_def
         set_last_def push_delegation_def STATE_def)
  from delegations_capped_at_50[of example_req example_env full_state "[Create example_req example_env]"] v len hd r one
  show ?thesis by simp
qed

lemma find_idx_split:
  "\<forall>x\<in>set pre. \<not> P x \<Longrightarrow> P d \<Longrightarrow> find_idx P (pre @ d # post) = Some (length pre)"
  by (induction pre) simp_all

lemma find_idx_none: "\<forall>x\<in>set xs. \<not> P x \<Longrightarrow> find_idx P xs = None"
  by (induction xs) simp_all

text \<open>
  C8, as amended. \<open>accept(id)\<close> works on the first record of the collection whose id is
  \<open>id\<close>. When that record is \<open>completed\<close>, the answer is
  \<open>{ok: false, error: 'already_completed'}\<close> and nothing of the state changes, no field
  of the record among it. In any other status the record becomes \<open>in_progress\<close>, its
  \<open>acceptedAt\<close> and \<open>startedAt\<close> are set to the clock, every other record stays, the
  document is saved and the record is published. With no record of that id the answer is
  \<open>{ok: false, error: 'not_found'}\<close>.
\<close>

theorem accept_completed_or_reclaim:
  "(delegations st = pre @ d # post \<and> (\<forall>x\<in>set pre. del_id x \<noteq> fid) \<and> del_id d = fid \<longrightarrow>
      (status d = Completed \<longrightarrow>
         accept fid t1 t2 st =
           (Answer (JObj [(''ok'', JBool False), (''error'', JStr ''already_completed'')]), st))
      \<and> (status d \<noteq> Completed \<longrightarrow>
         accept fid t1 t2 st =
           (Ok_delegation (d\<lparr>status := In_progress, acceptedAt := Some t1, startedAt := Some t2\<rparr>),
            st\<lparr>delegations :=
                 pre @ d\<lparr>status := In_progress, acceptedAt := Some t1, startedAt := Some t2\<rparr> # post,
               saved := Some (agent st, actionQueue st,
                 pre @ d\<lparr>status := In_progress, acceptedAt := Some t1, startedAt := Some t2\<rparr> # post),
               bus := bus st @
                 [Delegation_update (d\<lparr>status := In_progress, acceptedAt := Some t1, startedAt := Some t2\<rparr>)]\<rparr>)))
   \<and> ((\<forall>x\<in>set (delegations st). del_id x \<noteq> fid) \<longrightarrow>
        accept fid t1 t2 st = (Answer (JObj [(''ok'', JBool False), (''error'', JStr ''not_found'')]), st))"
proof (intro conjI impI)
  assume a: "delegations st = pre @ d # post \<and> (\<forall>x\<in>set pre. del_id x \<noteq> fid) \<and> del_id d = fid"
  then have f: "find_idx (\<lambda>x. del_id x = fid) (delegations st) = Some (length pre)"
    using find_idx_split[of pre "\<lambda>x. del_id x = fid" d post] by simp
  from a have nth: "delegations st ! length pre = d" by simp
  from a have upd: "\<And>d'. (delegations st)[length pre := d'] = pre @ d' # post" by simp
  show "accept fid t1 t2 st =
           (Answer (JObj [(''ok'', JBool False), (''error'', JStr ''already_completed'')]), st)"
    if "status d = Completed"
    using that by (simp add: accept_def f nth fail_def)
  show "accept fid t1 t2 st =
           (Ok_delegation (d\<lparr>status := In_progress, acceptedAt := Some t1, startedAt := Some t2\<rparr>),
            st\<lparr>delegations :=
                 pre @ d\<lparr>status := In_progress, acceptedAt := Some t1, startedAt := Some t2\<rparr> # post,
               saved := Some (agent st, actionQueue st,
                 pre @ d\<lparr>status := In_progress, acceptedAt := Some t1, startedAt := Some t2\<rparr> # post),
               bus := bus st @
                 [Delegation_update (d\<lparr>status := In_progress, acceptedAt := Some t1, startedAt := Some t2\<rparr>)]\<rparr>)"
    if "status d \<noteq> Completed"
    using that by (simp add: accept_def f nth upd Let_def saveState_def broadcast_def)
next
  assume "\<forall>x\<in>set (delegations st). del_id x \<noteq> fid"
  then have "find_idx (\<lambda>x. del_id x = fid) (delegations st) = None"
    by (rule find_idx_none)
  then show "accept fid t1 t2 st = (Answer (JObj [(''ok'', JBool False), (''error'', JStr ''not_found'')]), st)"
    by (simp add: accept_def fail_def)
qed

lemma other_id: "del_id other_delegation = ''del_x''" "\<And>s. del_id (old_delegation s) = ''del_a''"
  "\<And>s. status (old_delegation s) = s"
  by (simp_all add: other_delegation_def old_delegation_def)

theorem accept_completed_or_reclaim_witness:
  "delegations (three_delegations Completed) = [other_delegation] @ old_delegation Completed # [old_delegation Pending]
   \<and> del_id other_delegation \<noteq> ''del_a'' \<and> del_id (old_delegation Completed) = ''del_a''
   \<and> status (old_delegation Completed) = Completed
   \<and> accept ''del_a'' 700 701 (three_delegations Completed) =
        (Answer (JObj [(''ok'', JBool False), (''error'', JStr ''already_completed'')]),
         three_delegations Completed)
   \<and> status (old_delegation Timeout) \<noteq> Completed
   \<and> fst (accept ''del_a'' 700 701 (three_delegations Timeout)) =
        Ok_delegation ((old_delegation Timeout)\<lparr>status := In_progress, acceptedAt := Some 700, startedAt := Some 701\<rparr>)
   \<and> delegations (snd (accept ''del_a'' 700 701 (three_delegations Timeout))) =
        [other_delegation,
         (old_delegation Timeout)\<lparr>status := In_progress, acceptedAt := Some 700, startedAt := Some 701\<rparr>,
         old_delegation Pending]
   \<and> accept ''del_q'' 700 701 (three_delegations Timeout) =
        (Answer (JObj [(''ok'', JBool False), (''error'', JStr ''not_found'')]), three_delegations Timeout)"
proof -
  have d: "\<And>s. delegations (three_delegations s) = [other_delegation] @ old_delegation s # [old_delegation Pending]"
    by (simp add: three_delegations_def)
  have pre: "\<forall>x\<in>set [other_delegation]. del_id x \<noteq> ''del_a''" by (simp add: other_id)
  have none: "\<forall>x\<in>set (delegations (three_delegations Timeout)). del_id x \<noteq> ''del_q''"
    by (simp add: d other_id)
  note c = accept_completed_or_reclaim[of "three_delegations Completed" "[other_delegation]"
      "old_delegation Completed" "[old_delegation Pending]" "''del_a''" 700 701]
  note t = accept_completed_or_reclaim[of "three_delegations Timeout" "[other_delegation]"
      "old_delegation Timeout" "[old_delegation Pending]" "''del_a''" 700 701]
  note q = accept_completed_or_reclaim[of "three_delegations Timeout" "[]"
      "old_delegation Timeout" "[]" "''del_q''" 700 701]
  have r1: "accept ''del_a'' 700 701 (three_delegations Completed) =
        (Answer (JObj [(''ok'', JBool False), (''error'', JStr ''already_completed'')]),
         three_delegations Completed)"
    using c[THEN conjunct1] d pre by (simp add: other_id)
  have r2: "accept ''del_a'' 700 701 (three_delegations Timeout) =
      (Ok_delegation ((old_delegation Timeout)\<lparr>status := In_progress, acceptedAt := Some 700, startedAt := Some 701\<rparr>),
       (three_delegations Timeout)\<lparr>delegations :=
           [other_delegation] @ (old_delegation Timeout)\<lparr>status := In_progress, acceptedAt := Some 700, startedAt := Some 701\<rparr> # [old_delegation Pending],
         saved := Some (agent (three_delegations Timeout), actionQueue (three_delegations Timeout),
           [other_delegation] @ (old_delegation Timeout)\<lparr>status := In_progress, acceptedAt := Some 700, startedAt := Some 701\<rparr> # [old_delegation Pending]),
         bus := bus (three_delegations Timeout) @
           [Delegation_update ((old_delegation Timeout)\<lparr>status := In_progress, acceptedAt := Some 700, startedAt := Some 701\<rparr>)]\<rparr>)"
    using t[THEN conjunct1] d pre by (simp add: other_id)
  have r3: "accept ''del_q'' 700 701 (three_delegations Timeout) =
        (Answer (JObj [(''ok'', JBool False), (''error'', JStr ''not_found'')]), three_delegations Timeout)"
    using q[THEN conjunct2] none by simp
  show ?thesis
    unfolding r1 r2 r3 by (simp add: d other_id)
qed

text \<open>
  C8 as stated fails in the answer's key: on a completed record the answer carries
  \<open>already_completed\<close> under \<open>error\<close>, and has no \<open>reason\<close>.
\<close>

theorem accept_completed_answers_error_key:
  "status (delegations (three_delegations Completed) ! 1) = Completed
   \<and> del_id (delegations (three_delegations Completed) ! 1) = ''del_a''
   \<and> fst (accept ''del_a'' 700 701 (three_delegations Completed)) =
        Answer (JObj [(''ok'', JBool False), (''error'', JStr ''already_completed'')])
   \<and> field (JObj [(''ok'', JBool False), (''error'', JStr ''already_completed'')]) ''reason'' = None
   \<and> field (JObj [(''ok'', JBool False), (''error'', JStr ''already_completed'')]) ''error'' =
        Some (JStr ''already_completed'')"
  by (simp add: three_delegations_def accept_def other_delegation_def old_delegation_def fail_def)

section \<open>The action queue: enqueue and drain\<close>


lemma enqueue_missing_text: "enqueue [] frm t1 t2 st = (Answer (fail ''missing_text''), st)"
  by (simp add: enqueue_def)

lemma run_append: "run (xs @ ys) st = run ys (run xs st)"
  by (induction xs arbitrary: st) auto










section \<open>The action queue while the agent is busy\<close>

lemma create_queue_agent:
  "agent (snd (create req env st)) = agent st
   \<and> prefix (actionQueue st) (actionQueue (snd (create req env st)))"
  by (cases "focus env"; cases "resolveModel (req_model req)")
     (simp_all add: create_def Let_def saveState_def broadcast_def set_last_def push_delegation_def)

lemma step_busy:
  assumes "busy (agent st)" "x \<noteq> Stop"
  shows "busy (agent (step x st)) \<and> prefix (actionQueue st) (actionQueue (step x st))"
proof (cases x)
  case (Create req env)
  with assms create_queue_agent[of req env st] show ?thesis by simp
next
  case Stop
  with assms show ?thesis by simp
qed (use assms in \<open>auto simp: enqueue_def tick_def tick_guard_def after_await_def Let_def list_delegations_def complete_def accept_def
      broadcast_def saveState_def split: option.splits\<close>)

lemma run_busy:
  "busy (agent st) \<Longrightarrow> Stop \<notin> set xs \<Longrightarrow>
     busy (agent (run xs st)) \<and> prefix (actionQueue st) (actionQueue (run xs st))"
proof (induction xs arbitrary: st)
  case Nil
  then show ?case by simp
next
  case (Cons x xs)
  from Cons.prems have x: "x \<noteq> Stop" and xs: "Stop \<notin> set xs" by auto
  from step_busy[OF Cons.prems(1) x] have b: "busy (agent (step x st))"
    and p: "prefix (actionQueue st) (actionQueue (step x st))" by simp_all
  from Cons.IH[OF b xs] p show ?case by (auto intro: prefix_order.trans)
qed








section \<open>Listing delegations: the timeout taken on reading\<close>

lemma expire_spec:
  "expire now d = (if spec_overdue now d then Some (spec_flipped now d) else None)"
  by (simp add: expire_def spec_overdue_def spec_flipped_def Let_def split: option.splits)

lemma check_items_noop:
  "\<forall>i\<in>set is. expire now (delegations st ! i) = None \<Longrightarrow> check_items now is st = st"
  by (induction "is" arbitrary: st) auto

lemma check_items_nth:
  "distinct is \<Longrightarrow> \<forall>i\<in>set is. i < length (delegations st) \<Longrightarrow> k < length (delegations st) \<Longrightarrow>
     delegations (check_items now is st) ! k =
       (if k \<in> set is \<and> spec_overdue now (delegations st ! k)
        then spec_flipped now (delegations st ! k) else delegations st ! k)"
proof (induction "is" arbitrary: st)
  case Nil
  then show ?case by simp
next
  case (Cons i "is")
  from Cons.prems have d: "distinct is" and ni: "i \<notin> set is" and i: "i < length (delegations st)"
    and bound: "\<forall>j\<in>set is. j < length (delegations st)" by auto
  show ?case
  proof (cases "spec_overdue now (delegations st ! i)")
    case False
    then have "check_items now (i # is) st = check_items now is st"
      by (simp add: expire_spec)
    with Cons.IH[OF d bound Cons.prems(3)] False show ?thesis by auto
  next
    case True
    let ?d' = "spec_flipped now (delegations st ! i)"
    let ?st' = "saveState (st\<lparr>delegations := (delegations st)[i := ?d']\<rparr>)"
    have step: "check_items now (i # is) st = check_items now is ?st'"
      using True by (simp add: expire_spec)
    have ds': "delegations ?st' = (delegations st)[i := ?d']" by (simp add: saveState_def)
    have bound': "\<forall>j\<in>set is. j < length (delegations ?st')" using bound by (simp add: ds')
    have k': "k < length (delegations ?st')" using Cons.prems(3) by (simp add: ds')
    show ?thesis
      unfolding step
    proof (cases "k = i")
      case True
      with Cons.IH[OF d bound' k'] ni i \<open>spec_overdue now (delegations st ! i)\<close> show
        "delegations (check_items now is ?st') ! k =
          (if k \<in> set (i # is) \<and> spec_overdue now (delegations st ! k)
           then spec_flipped now (delegations st ! k) else delegations st ! k)"
        by (simp add: ds')
    next
      case False
      with Cons.IH[OF d bound' k'] show
        "delegations (check_items now is ?st') ! k =
          (if k \<in> set (i # is) \<and> spec_overdue now (delegations st ! k)
           then spec_flipped now (delegations st ! k) else delegations st ! k)"
        by (simp add: ds')
    qed
  qed
qed

lemma check_items_saved:
  "distinct is \<Longrightarrow> \<forall>i\<in>set is. i < length (delegations st) \<Longrightarrow>
     saved (check_items now is st) =
       (if \<exists>i\<in>set is. spec_overdue now (delegations st ! i)
        then Some (agent st, actionQueue st, delegations (check_items now is st))
        else saved st)"
proof (induction "is" arbitrary: st)
  case Nil
  then show ?case by simp
next
  case (Cons i "is")
  from Cons.prems have d: "distinct is" and ni: "i \<notin> set is" and i: "i < length (delegations st)"
    and bound: "\<forall>j\<in>set is. j < length (delegations st)" by auto
  show ?case
  proof (cases "spec_overdue now (delegations st ! i)")
    case False
    then have "check_items now (i # is) st = check_items now is st"
      by (simp add: expire_spec)
    with Cons.IH[OF d bound] False show ?thesis by auto
  next
    case True
    let ?d' = "spec_flipped now (delegations st ! i)"
    let ?st' = "saveState (st\<lparr>delegations := (delegations st)[i := ?d']\<rparr>)"
    have step: "check_items now (i # is) st = check_items now is ?st'"
      using True by (simp add: expire_spec)
    have ds': "delegations ?st' = (delegations st)[i := ?d']" by (simp add: saveState_def)
    have bound': "\<forall>j\<in>set is. j < length (delegations ?st')" using bound by (simp add: ds')
    have same: "\<forall>j\<in>set is. delegations ?st' ! j = delegations st ! j"
    proof
      fix j assume "j \<in> set is"
      with ni have "i \<noteq> j" by auto
      then show "delegations ?st' ! j = delegations st ! j" by (simp add: ds')
    qed
    show ?thesis
    proof (cases "\<exists>j\<in>set is. spec_overdue now (delegations st ! j)")
      case True
      with same have "\<exists>j\<in>set is. spec_overdue now (delegations ?st' ! j)" by auto
      with Cons.IH[OF d bound'] show ?thesis
        unfolding step using \<open>spec_overdue now (delegations st ! i)\<close> by (simp add: saveState_def)
    next
      case False
      with same have none: "\<forall>j\<in>set is. expire now (delegations ?st' ! j) = None"
        by (simp add: expire_spec)
      have "check_items now is ?st' = ?st'" by (rule check_items_noop[OF none])
      then show ?thesis
        unfolding step using \<open>spec_overdue now (delegations st ! i)\<close> by (simp add: saveState_def)
    qed
  qed
qed

lemma selected_spec:
  "selected fid fstatus ds = filter (\<lambda>i. spec_selected fid fstatus (ds ! i)) [0..<length ds]"
  by (auto simp: selected_def spec_selected_def intro!: filter_cong split: option.splits)

lemma selected_props:
  "distinct (selected fid fstatus ds)" "\<forall>i\<in>set (selected fid fstatus ds). i < length ds"
  by (simp_all add: selected_spec)

lemma filter_by_index:
  "map (\<lambda>i. f (xs ! i)) (filter (\<lambda>i. P (xs ! i)) [0..<length xs]) = map f (filter P xs)"
proof -
  have "map f (filter P xs) = map f (filter P (map (nth xs) [0..<length xs]))"
    by (simp add: map_nth)
  also have "\<dots> = map (\<lambda>i. f (xs ! i)) (filter (\<lambda>i. P (xs ! i)) [0..<length xs])"
    by (simp add: filter_map comp_def)
  finally show ?thesis by simp
qed

lemma list_delegations_state:
  "delegations (snd (list_delegations fid fstatus now st)) =
     map (\<lambda>d. if spec_selected fid fstatus d \<and> spec_overdue now d then spec_flipped now d else d)
       (delegations st)"
proof (rule nth_equalityI)
  show "length (delegations (snd (list_delegations fid fstatus now st))) =
        length (map (\<lambda>d. if spec_selected fid fstatus d \<and> spec_overdue now d then spec_flipped now d else d)
       (delegations st))"
    by (simp add: list_delegations_def Let_def)
next
  fix k assume "k < length (delegations (snd (list_delegations fid fstatus now st)))"
  then have k: "k < length (delegations st)" by (simp add: list_delegations_def Let_def)
  have "k \<in> set (selected fid fstatus (delegations st)) \<longleftrightarrow> spec_selected fid fstatus (delegations st ! k)"
    using k by (simp add: selected_spec)
  with check_items_nth[OF selected_props[of fid fstatus "delegations st"] k, of now] k
  show "delegations (snd (list_delegations fid fstatus now st)) ! k =
        map (\<lambda>d. if spec_selected fid fstatus d \<and> spec_overdue now d then spec_flipped now d else d)
       (delegations st) ! k"
    by (simp add: list_delegations_def Let_def)
qed

lemma list_delegations_items:
  "fst (fst (list_delegations fid fstatus now st)) =
     map (\<lambda>d. if spec_overdue now d then spec_flipped now d else d)
       (filter (spec_selected fid fstatus) (delegations st))"
proof -
  let ?ds = "delegations st"
  let ?items = "selected fid fstatus ?ds"
  let ?f = "\<lambda>d. if spec_overdue now d then spec_flipped now d else d"
  have "map (\<lambda>i. delegations (check_items now ?items st) ! i) ?items = map (\<lambda>i. ?f (?ds ! i)) ?items"
  proof (rule map_cong[OF refl])
    fix i assume i: "i \<in> set ?items"
    then have "i < length ?ds" using selected_props(2) by blast
    from check_items_nth[OF selected_props[of fid fstatus ?ds] this, of now] i
    show "delegations (check_items now ?items st) ! i = ?f (?ds ! i)" by simp
  qed
  also have "\<dots> = map ?f (filter (spec_selected fid fstatus) ?ds)"
    unfolding selected_spec by (rule filter_by_index)
  finally show ?thesis by (simp add: list_delegations_def Let_def)
qed

lemma list_delegations_saved:
  "saved (snd (list_delegations fid fstatus now st)) =
     (if \<exists>d\<in>set (delegations st). spec_selected fid fstatus d \<and> spec_overdue now d
      then Some (agent st, actionQueue st, delegations (snd (list_delegations fid fstatus now st)))
      else saved st)"
proof -
  let ?ds = "delegations st"
  have eq: "(\<exists>i\<in>set (selected fid fstatus ?ds). spec_overdue now (?ds ! i)) \<longleftrightarrow>
        (\<exists>d\<in>set ?ds. spec_selected fid fstatus d \<and> spec_overdue now d)"
    by (auto simp: selected_spec in_set_conv_nth Bex_def)
  have s: "snd (list_delegations fid fstatus now st) = check_items now (selected fid fstatus ?ds) st"
    by (simp add: list_delegations_def Let_def)
  show ?thesis
    unfolding s by (rule check_items_saved[OF selected_props[of fid fstatus ?ds], of now, unfolded eq])
qed

lemma digits_small: "n < 10 \<Longrightarrow> digits n = [digit_char n]"
  by (subst digits.simps) simp

text \<open>
  C7, as amended. \<open>list(filter)\<close> flips to \<open>timeout\<close>, with the elapsed-time message,
  every record that the filter selects and that is \<open>in_progress\<close> with a \<open>startedAt\<close>
  more than its \<open>timeoutMs\<close> before the clock of the call; every other record, a
  filtered-out overdue one among them, is left as it is. The records returned are the
  selected ones after the flip, the summary counts the collection after the flip, and when
  a record was flipped the document handed to \<open>saveState\<close> last is the final one. All of
  this happens within the call: no timer is involved.
\<close>

theorem list_flips_selected_overdue:
  "delegations (snd (list_delegations fid fstatus now st)) =
     map (\<lambda>d. if spec_selected fid fstatus d \<and> spec_overdue now d then spec_flipped now d else d)
       (delegations st)
   \<and> fst (fst (list_delegations fid fstatus now st)) =
       map (\<lambda>d. if spec_overdue now d then spec_flipped now d else d)
         (filter (spec_selected fid fstatus) (delegations st))
   \<and> snd (fst (list_delegations fid fstatus now st)) =
       summarise (delegations (snd (list_delegations fid fstatus now st)))
   \<and> saved (snd (list_delegations fid fstatus now st)) =
       (if \<exists>d\<in>set (delegations st). spec_selected fid fstatus d \<and> spec_overdue now d
        then Some (agent st, actionQueue st, delegations (snd (list_delegations fid fstatus now st)))
        else saved st)
   \<and> agent (snd (list_delegations fid fstatus now st)) = agent st
   \<and> actionQueue (snd (list_delegations fid fstatus now st)) = actionQueue st
   \<and> bus (snd (list_delegations fid fstatus now st)) = bus st"
proof (intro conjI)
  show "delegations (snd (list_delegations fid fstatus now st)) =
     map (\<lambda>d. if spec_selected fid fstatus d \<and> spec_overdue now d then spec_flipped now d else d)
       (delegations st)"
    by (rule list_delegations_state)
  show "fst (fst (list_delegations fid fstatus now st)) =
       map (\<lambda>d. if spec_overdue now d then spec_flipped now d else d)
         (filter (spec_selected fid fstatus) (delegations st))"
    by (rule list_delegations_items)
  show "saved (snd (list_delegations fid fstatus now st)) =
       (if \<exists>d\<in>set (delegations st). spec_selected fid fstatus d \<and> spec_overdue now d
        then Some (agent st, actionQueue st, delegations (snd (list_delegations fid fstatus now st)))
        else saved st)"
    by (rule list_delegations_saved)
qed (simp_all add: list_delegations_def Let_def)

lemma created_state_eq:
  "delegations created_state = [(new_delegation example_req example_env)\<lparr>status := In_progress, startedAt := Some 1600\<rparr>]"
  by (simp add: created_state_def create_def example_req_def example_env_def Let_def broadcast_def
        saveState_def set_last_def push_delegation_def STATE_def)

lemma created_record:
  "timeout_ms (new_delegation example_req example_env) = 100"
  "del_id (new_delegation example_req example_env) = ''del_b''"
  "status (new_delegation example_req example_env) = Pending"
  by (simp_all add: new_delegation_def example_req_def example_env_def)

theorem list_flips_selected_overdue_witness:
  "timeout_ms (hd (delegations created_state)) = 100
   \<and> status (hd (delegations created_state)) = In_progress
   \<and> startedAt (hd (delegations created_state)) = Some 1600
   \<and> delegations (snd (list_delegations [] None 1750 created_state)) =
       [(new_delegation example_req example_env)
          \<lparr>status := Timeout, startedAt := Some 1600, error := Some (JStr ''Timeout after 0s'')\<rparr>]
   \<and> fst (fst (list_delegations [] None 1750 created_state)) =
       [(new_delegation example_req example_env)
          \<lparr>status := Timeout, startedAt := Some 1600, error := Some (JStr ''Timeout after 0s'')\<rparr>]
   \<and> saved (snd (list_delegations [] None 1750 created_state)) =
       Some (agent created_state, actionQueue created_state,
             [(new_delegation example_req example_env)
                \<lparr>status := Timeout, startedAt := Some 1600, error := Some (JStr ''Timeout after 0s'')\<rparr>])
   \<and> delegations (snd (list_delegations [] None 1650 created_state)) = delegations created_state"
proof -
  let ?d = "(new_delegation example_req example_env)\<lparr>status := In_progress, startedAt := Some 1600\<rparr>"
  have sel: "spec_selected [] None ?d" by (simp add: spec_selected_def)
  have late: "spec_overdue 1750 ?d" and early: "\<not> spec_overdue 1650 ?d"
    by (simp_all add: spec_overdue_def created_record)
  have msg: "show_int ((1750 - 1600 + 500) div 1000) = ''0''"
    by (simp add: show_int_def digits_small digit_char_def)
  have fl: "spec_flipped 1750 ?d =
      (new_delegation example_req example_env)
          \<lparr>status := Timeout, startedAt := Some 1600, error := Some (JStr ''Timeout after 0s'')\<rparr>"
    using msg by (simp add: spec_flipped_def)
  from list_flips_selected_overdue[of "[]" None 1750 created_state]
       list_flips_selected_overdue[of "[]" None 1650 created_state]
       sel late early fl
  show ?thesis by (simp add: created_state_eq created_record)
qed

text \<open>
  C7 as stated fails: the filter is applied before the timeout check. A record that is
  \<open>in_progress\<close> and 150 ms past its start with a timeout of 100 ms is not flipped by
  \<open>list({status: 'timeout'})\<close>, which returns no record.
\<close>

theorem list_filter_skips_overdue:
  "status (hd (delegations created_state)) = In_progress
   \<and> startedAt (hd (delegations created_state)) = Some 1600
   \<and> timeout_ms (hd (delegations created_state)) = 100
   \<and> (1750::int) - 1600 > 100
   \<and> fst (fst (list_delegations [] (Some Timeout) 1750 created_state)) = []
   \<and> status (hd (delegations (snd (list_delegations [] (Some Timeout) 1750 created_state)))) = In_progress
   \<and> error (hd (delegations (snd (list_delegations [] (Some Timeout) 1750 created_state)))) = None"
  by (simp add: created_state_eq created_record list_delegations_def selected_def Let_def
        new_delegation_def example_req_def example_env_def)

section \<open>Model resolution on create\<close>

lemma includes_str_sublist: "includes_str hay needle \<longleftrightarrow> sublist needle hay"
  by (induction hay) (auto simp: sublist_Cons_right)

lemma sublist_map_iff:
  "sublist ys (map f xs) \<longleftrightarrow> (\<exists>zs. sublist zs xs \<and> map f zs = ys)"
proof
  assume "sublist ys (map f xs)"
  then obtain ps ss where "map f xs = ps @ ys @ ss" by (auto simp: sublist_def)
  then obtain ps' r where r: "xs = ps' @ r" "ps = map f ps'" "ys @ ss = map f r"
    unfolding map_eq_append_conv by blast
  from r(3) obtain zs ss' where z: "r = zs @ ss'" "ys = map f zs" "ss = map f ss'"
    unfolding append_eq_map_conv by blast
  from r z have "sublist zs xs" by (auto simp: sublist_def)
  with z(2) show "\<exists>zs. sublist zs xs \<and> map f zs = ys" by auto
next
  assume "\<exists>zs. sublist zs xs \<and> map f zs = ys"
  then obtain zs ps ss where "xs = ps @ zs @ ss" "map f zs = ys" by (auto simp: sublist_def)
  then have "map f xs = map f ps @ ys @ map f ss" by simp
  then show "sublist ys (map f xs)" unfolding sublist_def by blast
qed

lemma matches_spec: "matches s m \<longleftrightarrow> spec_matches s m"
  by (auto simp: matches_def spec_matches_def includes_str_sublist toLowerCase_def sublist_map_iff)

lemma matches_case: "toLowerCase s = toLowerCase s' \<Longrightarrow> matches s = matches s'"
  by (rule ext) (simp add: matches_def)

lemma resolve_number:
  "resolveModel (SelNum n) = (if 0 \<le> n \<and> n < 7 then Some (AVAILABLE_MODELS ! nat n) else None)"
proof -
  consider "n = 0" | "n = 1" | "n = 2" | "n = 3" | "n = 4" | "n = 5" | "n = 6" | "n < 0 \<or> 7 \<le> n"
    by arith
  then show ?thesis
    by cases (auto simp: AVAILABLE_MODELS_def)
qed

lemma create_unresolved:
  "resolveModel sel = None \<Longrightarrow>
     create (req\<lparr>req_model := sel\<rparr>) env st = create (req\<lparr>req_model := SelAbsent\<rparr>) env st"
  by (cases "focus env") (simp_all add: create_def new_delegation_def Let_def)

lemma create_no_model:
  assumes "req_target_tab req \<noteq> []" "req_task req \<noteq> []" "focus env = Focus_ok"
    "resolveModel (req_model req) = None"
  shows "fst (create req env st) =
           Ok_delegation ((new_delegation req env)\<lparr>status := In_progress, startedAt := Some (started_time env)\<rparr>)"
    and "model (new_delegation req env) = None"
    and "cdp (snd (create req env st)) = cdp st @ [FocusTab (req_target_tab req)]"
  using assms
  by (simp_all add: create_def new_delegation_def Let_def broadcast_def saveState_def set_last_def
        push_delegation_def)

text \<open>
  C9. A number selects the catalog entry at exactly that index (\<open>0\<close> to \<open>6\<close>) and
  nothing otherwise. A string selects the first entry of which, up to the case of letters,
  it is a part of the name or it is the key, so strings differing only in case select the same.
  A selector that resolves to nothing makes the handler run exactly as with no selector:
  with a target tab, a task and a successful focus, the delegation is \<open>in_progress\<close>,
  carries no model, and the only call into the bridge is the focus (no model switch).
\<close>

theorem model_resolution:
  "resolveModel (SelNum n) = (if 0 \<le> n \<and> n < 7 then Some (AVAILABLE_MODELS ! nat n) else None)
   \<and> resolveModel (SelStr s) = find (spec_matches s) AVAILABLE_MODELS
   \<and> (toLowerCase s = toLowerCase s' \<longrightarrow> resolveModel (SelStr s) = resolveModel (SelStr s'))
   \<and> (resolveModel sel = None \<longrightarrow>
        create (req\<lparr>req_model := sel\<rparr>) env st = create (req\<lparr>req_model := SelAbsent\<rparr>) env st)
   \<and> (resolveModel (req_model req) = None \<and> req_target_tab req \<noteq> [] \<and> req_task req \<noteq> []
        \<and> focus env = Focus_ok \<longrightarrow>
        fst (create req env st) =
          Ok_delegation ((new_delegation req env)\<lparr>status := In_progress, startedAt := Some (started_time env)\<rparr>)
        \<and> model (new_delegation req env) = None
        \<and> cdp (snd (create req env st)) = cdp st @ [FocusTab (req_target_tab req)])"
proof (intro conjI impI)
  show "resolveModel (SelNum n) = (if 0 \<le> n \<and> n < 7 then Some (AVAILABLE_MODELS ! nat n) else None)"
    by (rule resolve_number)
  have "matches s = spec_matches s" by (rule ext) (rule matches_spec)
  then show "resolveModel (SelStr s) = find (spec_matches s) AVAILABLE_MODELS" by simp
  show "resolveModel (SelStr s) = resolveModel (SelStr s')" if "toLowerCase s = toLowerCase s'"
    using matches_case[OF that] by simp
  show "create (req\<lparr>req_model := sel\<rparr>) env st = create (req\<lparr>req_model := SelAbsent\<rparr>) env st"
    if "resolveModel sel = None"
    using that by (rule create_unresolved)
next
  assume a: "resolveModel (req_model req) = None \<and> req_target_tab req \<noteq> [] \<and> req_task req \<noteq> []
        \<and> focus env = Focus_ok"
  then have h: "req_target_tab req \<noteq> []" "req_task req \<noteq> []" "focus env = Focus_ok"
    "resolveModel (req_model req) = None" by simp_all
  show "fst (create req env st) =
          Ok_delegation ((new_delegation req env)\<lparr>status := In_progress, startedAt := Some (started_time env)\<rparr>)"
    by (rule create_no_model(1)[OF h])
  show "model (new_delegation req env) = None"
    by (rule create_no_model(2)[OF h])
  show "cdp (snd (create req env st)) = cdp st @ [FocusTab (req_target_tab req)]"
    by (rule create_no_model(3)[OF h])
qed

theorem model_resolution_witness:
  "resolveModel (SelNum 2) = Some \<lparr>index = 2, name = ''Gemini 3 Flash'', key = ''gemini-flash''\<rparr>
   \<and> AVAILABLE_MODELS ! 2 = \<lparr>index = 2, name = ''Gemini 3 Flash'', key = ''gemini-flash''\<rparr>
   \<and> resolveModel (SelNum 7) = None
   \<and> toLowerCase ''CLAUDE-Sonnet'' = toLowerCase ''claude-sonnet''
   \<and> resolveModel (SelStr ''claude-sonnet'') =
        Some \<lparr>index = 3, name = ''Claude Sonnet 4.5'', key = ''claude-sonnet''\<rparr>
   \<and> resolveModel (SelStr ''CLAUDE-Sonnet'') =
        Some \<lparr>index = 3, name = ''Claude Sonnet 4.5'', key = ''claude-sonnet''\<rparr>
   \<and> \<not> includes_str (toLowerCase ''Claude Sonnet 4.5'') (toLowerCase ''claude-sonnet'')
   \<and> resolveModel (SelStr ''llama'') = None
   \<and> req_target_tab unmatched_req \<noteq> [] \<and> req_task unmatched_req \<noteq> []
   \<and> focus example_env = Focus_ok
   \<and> create unmatched_req example_env STATE = create example_req example_env STATE
   \<and> fst (create unmatched_req example_env STATE) =
        Ok_delegation ((new_delegation unmatched_req example_env)\<lparr>status := In_progress, startedAt := Some 1600\<rparr>)
   \<and> model (new_delegation unmatched_req example_env) = None
   \<and> cdp (snd (create unmatched_req example_env STATE)) = [FocusTab ''Agent'']"
proof -
  have n2: "AVAILABLE_MODELS ! 2 = \<lparr>index = 2, name = ''Gemini 3 Flash'', key = ''gemini-flash''\<rparr>"
    by (simp add: AVAILABLE_MODELS_def)
  have lc: "toLowerCase ''CLAUDE-Sonnet'' = toLowerCase ''claude-sonnet''"
    by code_simp
  have cs: "resolveModel (SelStr ''claude-sonnet'') =
        Some \<lparr>index = 3, name = ''Claude Sonnet 4.5'', key = ''claude-sonnet''\<rparr>"
    by code_simp
  have nm: "\<not> includes_str (toLowerCase ''Claude Sonnet 4.5'') (toLowerCase ''claude-sonnet'')"
    by code_simp
  have un: "resolveModel (SelStr ''llama'') = None"
    by code_simp
  have rq: "req_model unmatched_req = SelStr ''llama''" "req_target_tab unmatched_req \<noteq> []"
    "req_task unmatched_req \<noteq> []" "focus example_env = Focus_ok"
    "unmatched_req\<lparr>req_model := SelStr ''llama''\<rparr> = unmatched_req"
    "unmatched_req\<lparr>req_model := SelAbsent\<rparr> = example_req"
    "req_target_tab unmatched_req = ''Agent''" "started_time example_env = 1600"
    by (simp_all add: unmatched_req_def example_req_def example_env_def)
  have c0: "cdp STATE = []" by (simp add: STATE_def)
  from model_resolution[of 2 "''CLAUDE-Sonnet''" "''claude-sonnet''" "SelStr ''llama''" unmatched_req example_env STATE]
       model_resolution[of 7 "''CLAUDE-Sonnet''" "''claude-sonnet''" "SelStr ''llama''" unmatched_req example_env STATE]
       n2 lc cs nm un rq c0
  show ?thesis by simp
qed

section \<open>The executor: sweeps, pauses and the busy signal\<close>

lemma sweeps_simps [simp]:
  "sweeps [] = 0" "sweeps (Sweep # t) = Suc (sweeps t)" "sweeps (Wait n # t) = sweeps t"
  "sweeps (Evaluate c k # t) = sweeps t" "sweeps (xs @ ys) = sweeps xs + sweeps ys"
  by (simp_all add: sweeps_def)

lemma sweeps_after [simp]: "sweeps (snd (after evs r)) = sweeps evs + sweeps (snd r)"
  by (simp add: after_def)

lemma waits_append [simp]: "waits (xs @ ys) = waits xs @ waits ys"
  by (induction xs rule: waits.induct) auto

lemma waits_after [simp]: "waits (snd (after evs r)) = waits evs @ waits (snd r)"
  by (simp add: after_def)

lemma fst_after [simp]: "fst (after evs r) = fst r"
  by (simp add: after_def)

lemma snd_after [simp]: "snd (after evs r) = evs @ snd r"
  by (simp add: after_def)

lemma try_contexts_trace:
  "sweeps (snd (try_contexts host cs)) = 0 \<and> waits (snd (try_contexts host cs)) = []"
  by (induction cs) (auto split: reply.splits option.splits)

lemma sweep_trace [simp]:
  "sweeps (snd (tryInjectAnyContext env)) = 1" "waits (snd (tryInjectAnyContext env)) = []"
  using try_contexts_trace[of "snd env" "rev (fst env)"]
  by (auto simp: tryInjectAnyContext_def Let_def)

lemma inject_from_end: "inject_from envs 3 = (fail ''editor_not_found_in_any_context'', [])"
  by (subst inject_from.simps) (simp add: attempts_def)

lemma inject_from_round:
  assumes "i < 3" "j = 2 * i" "k = 2 * i + 1" "n = i + 1"
    and "\<not> truthy (field (fst (tryInjectAnyContext (envs j))) ''ok'')"
    and "field (fst (tryInjectAnyContext (envs j))) ''error'' \<noteq> Some (JStr ''busy'')"
    and "\<not> truthy (field (fst (tryInjectAnyContext (envs k))) ''ok'')"
  shows "inject_from envs i =
           after (snd (tryInjectAnyContext (envs j)) @ [Wait 1000] @ snd (tryInjectAnyContext (envs k)))
             (inject_from envs n)"
  using assms by (subst inject_from.simps) (simp add: attempts_def Let_def)

lemma inject_from_sweeps: "sweeps (snd (inject_from envs i)) \<le> 2 * (attempts - i)"
proof (induction envs i rule: inject_from.induct)
  case (1 envs i)
  show ?case
  proof (cases "i < attempts")
    case False
    then show ?thesis by (subst inject_from.simps) simp
  next
    case True
    let ?first = "tryInjectAnyContext (envs (2 * i))"
    let ?second = "after (snd ?first @ [Wait 1000]) (tryInjectAnyContext (envs (2 * i + 1)))"
    have s2: "sweeps (snd ?second) = 2"
      by simp
    show ?thesis
    proof (cases "truthy (field (fst ?first) ''ok'') \<or> field (fst ?first) ''error'' = Some (JStr ''busy'')")
      case stop: True
      then have "inject_from envs i = ?first"
        using True by (subst inject_from.simps) (auto simp: Let_def)
      with True show ?thesis by simp
    next
      case go: False
      show ?thesis
      proof (cases "truthy (field (fst ?second) ''ok'')")
        case True
        then have "inject_from envs i = ?second"
          using go \<open>i < attempts\<close> by (subst inject_from.simps) (auto simp: Let_def)
        with s2 \<open>i < attempts\<close> show ?thesis by simp
      next
        case False
        then have e: "inject_from envs i = after (snd ?second) (inject_from envs (i + 1))"
          using go \<open>i < attempts\<close> by (subst inject_from.simps) (auto simp: Let_def)
        have "sweeps (snd (inject_from envs (i + 1))) \<le> 2 * (attempts - (i + 1))"
          using "1.IH"[OF \<open>i < attempts\<close> refl _ _ refl False] go by auto
        with s2 \<open>i < attempts\<close> show ?thesis
          unfolding e by (simp only: sweeps_after s2)
      qed
    qed
  qed
qed

lemma three_rounds:
  assumes first: "\<forall>k\<in>{0, 2, 4}. \<not> truthy (field (fst (tryInjectAnyContext (envs k))) ''ok'')
           \<and> field (fst (tryInjectAnyContext (envs k))) ''error'' \<noteq> Some (JStr ''busy'')"
    and second: "\<forall>k\<in>{1, 3, 5}. \<not> truthy (field (fst (tryInjectAnyContext (envs k))) ''ok'')"
  shows "injectMessage True envs =
        (fail ''editor_not_found_in_any_context'',
         snd (tryInjectAnyContext (envs 0)) @ [Wait 1000] @ snd (tryInjectAnyContext (envs 1)) @
         snd (tryInjectAnyContext (envs 2)) @ [Wait 1000] @ snd (tryInjectAnyContext (envs 3)) @
         snd (tryInjectAnyContext (envs 4)) @ [Wait 1000] @ snd (tryInjectAnyContext (envs 5)))"
proof -
  have r0: "inject_from envs 0 =
      after (snd (tryInjectAnyContext (envs 0)) @ [Wait 1000] @ snd (tryInjectAnyContext (envs 1)))
        (inject_from envs 1)"
    by (rule inject_from_round[of 0 0 1 1]) (use first second in simp_all)
  have r1: "inject_from envs 1 =
      after (snd (tryInjectAnyContext (envs 2)) @ [Wait 1000] @ snd (tryInjectAnyContext (envs 3)))
        (inject_from envs 2)"
    by (rule inject_from_round[of 1 2 3 2]) (use first second in simp_all)
  have r2: "inject_from envs 2 =
      after (snd (tryInjectAnyContext (envs 4)) @ [Wait 1000] @ snd (tryInjectAnyContext (envs 5)))
        (inject_from envs 3)"
    by (rule inject_from_round[of 2 4 5 3]) (use first second in simp_all)
  show ?thesis
    unfolding injectMessage_def r0 r1 r2 inject_from_end after_def by simp
qed

text \<open>
  C4, as amended. When no sweep succeeds or signals busy, \<open>injectMessage\<close> on a connected
  bridge runs three rounds of two sweeps each, six sweeps in all, pausing 1000 ms between
  the two sweeps of a round and not between rounds, and then returns the value
  \<open>{ok: false, error: 'editor_not_found_in_any_context'}\<close>. Whatever the host answers, a
  call makes at most six sweeps and returns a value; on a bridge that is not connected it
  returns \<open>{ok: false, error: 'not_connected'}\<close> without any sweep.
\<close>

theorem inject_exhausts_three_rounds:
  "((\<forall>k<6. \<not> truthy (field (fst (tryInjectAnyContext (envs k))) ''ok'')
           \<and> field (fst (tryInjectAnyContext (envs k))) ''error'' \<noteq> Some (JStr ''busy'')) \<longrightarrow>
      injectMessage True envs =
        (fail ''editor_not_found_in_any_context'',
         snd (tryInjectAnyContext (envs 0)) @ [Wait 1000] @ snd (tryInjectAnyContext (envs 1)) @
         snd (tryInjectAnyContext (envs 2)) @ [Wait 1000] @ snd (tryInjectAnyContext (envs 3)) @
         snd (tryInjectAnyContext (envs 4)) @ [Wait 1000] @ snd (tryInjectAnyContext (envs 5)))
      \<and> sweeps (snd (injectMessage True envs)) = 6
      \<and> waits (snd (injectMessage True envs)) = [1000, 1000, 1000])
   \<and> sweeps (snd (injectMessage connected envs)) \<le> 6
   \<and> injectMessage False envs = (fail ''not_connected'', [])"
proof (intro conjI impI)
  assume a: "\<forall>k<6. \<not> truthy (field (fst (tryInjectAnyContext (envs k))) ''ok'')
           \<and> field (fst (tryInjectAnyContext (envs k))) ''error'' \<noteq> Some (JStr ''busy'')"
  show e: "injectMessage True envs =
        (fail ''editor_not_found_in_any_context'',
         snd (tryInjectAnyContext (envs 0)) @ [Wait 1000] @ snd (tryInjectAnyContext (envs 1)) @
         snd (tryInjectAnyContext (envs 2)) @ [Wait 1000] @ snd (tryInjectAnyContext (envs 3)) @
         snd (tryInjectAnyContext (envs 4)) @ [Wait 1000] @ snd (tryInjectAnyContext (envs 5)))"
    by (rule three_rounds) (use a in simp_all)
  show "sweeps (snd (injectMessage True envs)) = 6"
    unfolding e by simp
  show "waits (snd (injectMessage True envs)) = [1000, 1000, 1000]"
    unfolding e by simp
next
  show "sweeps (snd (injectMessage connected envs)) \<le> 6"
    using inject_from_sweeps[of envs 0] by (simp add: injectMessage_def attempts_def)
  show "injectMessage False envs = (fail ''not_connected'', [])"
    by (simp add: injectMessage_def)
qed


lemma never_found_sweep:
  "tryInjectAnyContext (never_found k) = (fail ''not_found'', [Sweep, Evaluate 1 Check])"
  by (simp add: tryInjectAnyContext_def never_found_def idle_host_def evaluated_def result_value_def
        after_def)

theorem inject_exhausts_three_rounds_witness:
  "\<not> truthy (field (fst (tryInjectAnyContext (never_found 0))) ''ok'')
   \<and> field (fst (tryInjectAnyContext (never_found 0))) ''error'' = Some (JStr ''not_found'')
   \<and> injectMessage True never_found =
        (fail ''editor_not_found_in_any_context'',
         [Sweep, Evaluate 1 Check, Wait 1000, Sweep, Evaluate 1 Check,
          Sweep, Evaluate 1 Check, Wait 1000, Sweep, Evaluate 1 Check,
          Sweep, Evaluate 1 Check, Wait 1000, Sweep, Evaluate 1 Check])
   \<and> sweeps (snd (injectMessage True never_found)) = 6
   \<and> waits (snd (injectMessage True never_found)) = [1000, 1000, 1000]
   \<and> injectMessage False never_found = (fail ''not_connected'', [])"
proof -
  have h: "\<forall>k<6. \<not> truthy (field (fst (tryInjectAnyContext (never_found k))) ''ok'')
           \<and> field (fst (tryInjectAnyContext (never_found k))) ''error'' \<noteq> Some (JStr ''busy'')"
    by (simp add: never_found_sweep fail_def)
  have f: "\<not> truthy (field (fst (tryInjectAnyContext (never_found 0))) ''ok'')
   \<and> field (fst (tryInjectAnyContext (never_found 0))) ''error'' = Some (JStr ''not_found'')"
    by (simp add: never_found_sweep fail_def)
  from inject_exhausts_three_rounds[of never_found True] h f
  show ?thesis by (simp add: never_found_sweep)
qed

text \<open>
  C4 as stated fails: with one context in which the quick check never finds an input
  element, the call makes six sweeps, not at most three.
\<close>

theorem inject_sweeps_six_times:
  "sweeps (snd (injectMessage True never_found)) = 6
   \<and> \<not> sweeps (snd (injectMessage True never_found)) \<le> 3
   \<and> waits (snd (injectMessage True never_found)) = [1000, 1000, 1000]"
proof -
  have "injectMessage True never_found =
        (fail ''editor_not_found_in_any_context'',
         snd (tryInjectAnyContext (never_found 0)) @ [Wait 1000] @ snd (tryInjectAnyContext (never_found 1)) @
         snd (tryInjectAnyContext (never_found 2)) @ [Wait 1000] @ snd (tryInjectAnyContext (never_found 3)) @
         snd (tryInjectAnyContext (never_found 4)) @ [Wait 1000] @ snd (tryInjectAnyContext (never_found 5)))"
    by (rule three_rounds) (simp_all add: never_found_sweep fail_def)
  then show ?thesis by simp
qed

lemma busy_at_sweep:
  "tryInjectAnyContext (busy_at k j) =
     (if j = k then (fail ''busy'', [Sweep, Evaluate 1 Check, Evaluate 1 Inject])
      else (fail ''not_found'', [Sweep, Evaluate 1 Check]))"
  by (simp add: tryInjectAnyContext_def busy_at_def idle_host_def busy_host_def evaluated_def
        result_value_def after_def)

text \<open>
  C3 on the code. The busy result of a sweep is returned only for the first sweep of a
  round; after the pause, the second sweep's result is tested for \<open>ok\<close> alone. With one
  context that reports busy on the second sweep of the call, the call goes on for four more
  sweeps and returns \<open>editor_not_found_in_any_context\<close>; when the busy report comes on the
  sixth sweep, the same error is returned, and the queue processor, given that result,
  drops the head item instead of keeping it for a busy agent.
\<close>

theorem busy_on_retry_sweep_lost:
  "fst (tryInjectAnyContext (busy_at 1 1)) = fail ''busy''
   \<and> injectMessage True (busy_at 1) =
        (fail ''editor_not_found_in_any_context'',
         [Sweep, Evaluate 1 Check, Wait 1000, Sweep, Evaluate 1 Check, Evaluate 1 Inject,
          Sweep, Evaluate 1 Check, Wait 1000, Sweep, Evaluate 1 Check,
          Sweep, Evaluate 1 Check, Wait 1000, Sweep, Evaluate 1 Check])
   \<and> fst (tryInjectAnyContext (busy_at 5 5)) = fail ''busy''
   \<and> fst (injectMessage True (busy_at 5)) = fail ''editor_not_found_in_any_context''
   \<and> actionQueue (queued_state False) = [new_action ''check inbox'' [] 5000 5000]
   \<and> actionQueue (tick (fst (injectMessage True (busy_at 5))) (queued_state False)) = []
   \<and> busy (agent (tick (fst (injectMessage True (busy_at 5))) (queued_state False))) = False"
proof -
  have one: "injectMessage True (busy_at 1) =
        (fail ''editor_not_found_in_any_context'',
         snd (tryInjectAnyContext (busy_at 1 0)) @ [Wait 1000] @ snd (tryInjectAnyContext (busy_at 1 1)) @
         snd (tryInjectAnyContext (busy_at 1 2)) @ [Wait 1000] @ snd (tryInjectAnyContext (busy_at 1 3)) @
         snd (tryInjectAnyContext (busy_at 1 4)) @ [Wait 1000] @ snd (tryInjectAnyContext (busy_at 1 5)))"
    by (rule three_rounds) (simp_all add: busy_at_sweep fail_def)
  have five: "injectMessage True (busy_at 5) =
        (fail ''editor_not_found_in_any_context'',
         snd (tryInjectAnyContext (busy_at 5 0)) @ [Wait 1000] @ snd (tryInjectAnyContext (busy_at 5 1)) @
         snd (tryInjectAnyContext (busy_at 5 2)) @ [Wait 1000] @ snd (tryInjectAnyContext (busy_at 5 3)) @
         snd (tryInjectAnyContext (busy_at 5 4)) @ [Wait 1000] @ snd (tryInjectAnyContext (busy_at 5 5)))"
    by (rule three_rounds) (simp_all add: busy_at_sweep fail_def)
  have q: "actionQueue (queued_state False) = [new_action ''check inbox'' [] 5000 5000]"
    "\<not> busy (agent (queued_state False))"
    by (simp_all add: queued_state_def STATE_def)
  have t: "tick (fail ''editor_not_found_in_any_context'') (queued_state False) =
      saveState ((queued_state False)\<lparr>actionQueue := []\<rparr>)"
    using q by (simp add: tick_def tick_guard_def after_await_def fail_def)
  show ?thesis
    unfolding one five by (simp add: busy_at_sweep t q saveState_def)
qed

text \<open>What does hold: a busy report on the first sweep of the call is returned at once.\<close>

lemma busy_on_first_sweep:
  "fst (tryInjectAnyContext (envs 0)) = fail ''busy'' \<Longrightarrow>
     injectMessage True envs = tryInjectAnyContext (envs 0)"
  by (subst injectMessage_def, subst inject_from.simps) (simp add: attempts_def fail_def Let_def)

section \<open>The connection manager: requests, responses, close and reconnect\<close>

lemma inv_init: "session_inv CdpBridge"
  by (simp add: session_inv_def CdpBridge_def)

lemma inv_scheduleReconnect: "session_inv b \<Longrightarrow> session_inv (scheduleReconnect b)"
  by (simp add: session_inv_def scheduleReconnect_def)

lemma inv_connect: "session_inv b \<Longrightarrow> session_inv (connect t b)"
  by (cases t) (simp_all add: connect_def inv_scheduleReconnect, simp add: session_inv_def)

lemma inv_fresh:
  assumes "session_inv b"
  shows "requestId b \<notin> set (pendingRequests b)" "requestId b \<notin> fst ` set (settled b)"
proof -
  from assms have u: "set (pendingRequests b) \<union> fst ` set (settled b) = fst ` set (wire b)"
    and w: "\<forall>i\<in>fst ` set (wire b). i < requestId b"
    by (simp_all add: session_inv_def)
  from w have "requestId b \<notin> fst ` set (wire b)" by blast
  with u show "requestId b \<notin> set (pendingRequests b)" "requestId b \<notin> fst ` set (settled b)"
    by blast+
qed

lemma send_live:
  "isConnected b \<Longrightarrow> ws b \<Longrightarrow> requestId b \<notin> set (pendingRequests b) \<Longrightarrow>
     send m p b =
       (Inr (requestId b),
        b\<lparr>requestId := requestId b + 1,
          pendingRequests := pendingRequests b @ [requestId b],
          wire := wire b @ [(requestId b, m, p)]\<rparr>)"
  by (simp add: send_def Let_def)

lemma send_dead: "\<not> (isConnected b \<and> ws b) \<Longrightarrow> send m p b = (Inl Not_connected, b)"
  by (auto simp: send_def)

lemma inv_send: "session_inv b \<Longrightarrow> session_inv (snd (send m p b))"
proof (cases "isConnected b \<and> ws b")
  case False
  assume "session_inv b"
  with False show ?thesis by (simp add: send_dead)
next
  case True
  assume inv: "session_inv b"
  note fresh = inv_fresh[OF inv]
  have s: "snd (send m p b) =
        b\<lparr>requestId := requestId b + 1,
          pendingRequests := pendingRequests b @ [requestId b],
          wire := wire b @ [(requestId b, m, p)]\<rparr>"
    using True fresh(1) by (simp add: send_live)
  from inv have u: "set (pendingRequests b) \<union> fst ` set (settled b) = fst ` set (wire b)"
    by (simp add: session_inv_def)
  show ?thesis
    unfolding s session_inv_def
  proof (intro conjI)
    show "set (pendingRequests (b\<lparr>requestId := requestId b + 1,
          pendingRequests := pendingRequests b @ [requestId b],
          wire := wire b @ [(requestId b, m, p)]\<rparr>)) \<union>
      fst ` set (settled (b\<lparr>requestId := requestId b + 1,
          pendingRequests := pendingRequests b @ [requestId b],
          wire := wire b @ [(requestId b, m, p)]\<rparr>)) =
      fst ` set (wire (b\<lparr>requestId := requestId b + 1,
          pendingRequests := pendingRequests b @ [requestId b],
          wire := wire b @ [(requestId b, m, p)]\<rparr>))"
      using u by auto
  qed (use inv fresh in \<open>auto simp: session_inv_def sorted_wrt_append\<close>)
qed

lemma inv_on_open: "session_inv b \<Longrightarrow> session_inv (on_open b)"
proof -
  assume "session_inv b"
  then have "session_inv (b\<lparr>isConnected := True\<rparr>)" by (simp add: session_inv_def)
  then show ?thesis unfolding on_open_def initializeSession_def by (rule inv_send)
qed

lemma inv_cleanup: "session_inv b \<Longrightarrow> session_inv (cleanup b)"
  unfolding session_inv_def cleanup_def
  by (auto simp: distinct_map comp_def inj_on_def image_Un image_image)

lemma inv_on_close: "session_inv b \<Longrightarrow> session_inv (on_close b)"
  by (simp add: on_close_def inv_cleanup inv_scheduleReconnect)

lemma inv_on_timer: "session_inv b \<Longrightarrow> session_inv (on_timer b)"
  by (auto simp: session_inv_def on_timer_def split: if_splits)

lemma inv_handle_event: "session_inv b \<Longrightarrow> session_inv (handle_event msg b)"
  by (auto simp: session_inv_def handle_event_def split: option.splits json.splits)


lemma handleMessage_response:
  assumes "field msg ''id'' = Some (JNum n)" "n \<noteq> 0" "n \<in> set (pendingRequests b)"
  shows "handleMessage (Some msg) b =
           b\<lparr>pendingRequests := removeAll n (pendingRequests b),
             settled := settled b @
               [(n, case field msg ''error'' of
                      None \<Rightarrow> Resolved_with (field msg ''result'')
                    | Some e \<Rightarrow> if truthy (Some e) then Rejected_with (Remote e)
                                else Resolved_with (field msg ''result''))]\<rparr>"
proof -
  from assms(1) have "msg \<noteq> JNull" by auto
  with assms show ?thesis
    by (cases msg) (auto simp: handleMessage_def)
qed

lemma handleMessage_other:
  assumes "\<not> (\<exists>n. field msg ''id'' = Some (JNum n) \<and> n \<noteq> 0 \<and> n \<in> set (pendingRequests b))"
  shows "handleMessage (Some msg) b = (if msg = JNull then b else handle_event msg b)"
  using assms by (cases msg) (auto simp: handleMessage_def split: option.splits json.splits)

lemma inv_response:
  assumes inv: "session_inv b" and n: "n \<in> set (pendingRequests b)"
  shows "session_inv (b\<lparr>pendingRequests := removeAll n (pendingRequests b),
                        settled := settled b @ [(n, out)]\<rparr>)"
proof -
  from inv n have ns: "n \<notin> fst ` set (settled b)" by (auto simp: session_inv_def)
  from inv have u: "set (pendingRequests b) \<union> fst ` set (settled b) = fst ` set (wire b)"
    by (simp add: session_inv_def)
  have u': "(set (pendingRequests b) - {n}) \<union> (fst ` set (settled b) \<union> {n}) = fst ` set (wire b)"
    using u n by blast
  show ?thesis
    unfolding session_inv_def
  proof (intro conjI)
    show "set (pendingRequests (b\<lparr>pendingRequests := removeAll n (pendingRequests b),
                        settled := settled b @ [(n, out)]\<rparr>)) \<union>
          fst ` set (settled (b\<lparr>pendingRequests := removeAll n (pendingRequests b),
                        settled := settled b @ [(n, out)]\<rparr>)) =
          fst ` set (wire (b\<lparr>pendingRequests := removeAll n (pendingRequests b),
                        settled := settled b @ [(n, out)]\<rparr>))"
      using u' by (simp add: Un_commute)
  qed (use inv ns in \<open>auto simp: session_inv_def distinct_removeAll\<close>)
qed

lemma inv_handleMessage: "session_inv b \<Longrightarrow> session_inv (handleMessage raw b)"
proof (cases raw)
  case None
  assume "session_inv b"
  with None show ?thesis by (simp add: handleMessage_def)
next
  case (Some msg)
  assume inv: "session_inv b"
  show ?thesis
  proof (cases "\<exists>n. field msg ''id'' = Some (JNum n) \<and> n \<noteq> 0 \<and> n \<in> set (pendingRequests b)")
    case True
    then obtain n where n: "field msg ''id'' = Some (JNum n)" "n \<noteq> 0" "n \<in> set (pendingRequests b)"
      by blast
    show ?thesis
      unfolding Some handleMessage_response[OF n] by (rule inv_response[OF inv n(3)])
  next
    case False
    show ?thesis
      unfolding Some handleMessage_other[OF False] using inv by (simp add: inv_handle_event)
  qed
qed

lemma inv_step: "session_inv b \<Longrightarrow> session_inv (bridge_step e b)"
  by (cases e)
     (simp_all add: inv_connect inv_on_open inv_handleMessage inv_on_close inv_on_timer inv_send
        on_error_def)

lemma inv_run: "session_inv b \<Longrightarrow> session_inv (bridge_run es b)"
  by (induction es arbitrary: b) (simp_all add: inv_step)

lemma send_all_live:
  "isConnected b \<Longrightarrow> ws b \<Longrightarrow> session_inv b \<Longrightarrow>
     fst (send_all ms b) = map (\<lambda>k. Some (requestId b + int k)) [0..<length ms]
     \<and> pendingRequests (snd (send_all ms b)) =
         pendingRequests b @ map (\<lambda>k. requestId b + int k) [0..<length ms]
     \<and> requestId (snd (send_all ms b)) = requestId b + int (length ms)"
proof (induction ms arbitrary: b)
  case Nil
  then show ?case by simp
next
  case (Cons mp ms)
  obtain m p where mp: "mp = (m, p)" by (cases mp)
  let ?b' = "b\<lparr>requestId := requestId b + 1,
          pendingRequests := pendingRequests b @ [requestId b],
          wire := wire b @ [(requestId b, m, p)]\<rparr>"
  have s: "send m p b = (Inr (requestId b), ?b')"
    using Cons.prems inv_fresh(1)[OF Cons.prems(3)] by (simp add: send_live)
  have inv': "session_inv ?b'" using inv_send[OF Cons.prems(3), of m p] by (simp add: s)
  have live': "isConnected ?b'" "ws ?b'" using Cons.prems by simp_all
  note ih = Cons.IH[OF live' inv']
  have shift: "map (\<lambda>k. requestId b + int k) [0..<Suc (length ms)] =
               requestId b # map (\<lambda>k. requestId b + 1 + int k) [0..<length ms]"
    by (simp add: upt_conv_Cons map_Suc_upt[symmetric] del: upt_Suc)
  have shift': "map (\<lambda>k. Some (requestId b + int k)) [0..<Suc (length ms)] =
               Some (requestId b) # map (\<lambda>k. Some (requestId b + 1 + int k)) [0..<length ms]"
    by (simp add: upt_conv_Cons map_Suc_upt[symmetric] del: upt_Suc)
  show ?case
    using ih by (simp add: mp s split_beta shift shift' del: upt_Suc)
qed

lemma ids_increase: "sorted_wrt (<) (map (\<lambda>k. r + int k) [0..<n])"
  by (simp add: sorted_wrt_map)

lemma handle_event_keeps [simp]:
  "pendingRequests (handle_event msg b) = pendingRequests b"
  "settled (handle_event msg b) = settled b"
  by (auto simp: handle_event_def split: option.splits json.splits)

lemma live_session_eq:
  "live_session =
     \<lparr>ws = True, contexts = [], isConnected = True, reconnectTimer = False, requestId = 3,
      pendingRequests = [1, 2], settled = [],
      wire = [(1, ''Runtime.enable'', JObj []), (2, ''Runtime.evaluate'', JObj [])], timers = 0\<rparr>"
  by (simp add: live_session_def connect_def on_open_def initializeSession_def send_def CdpBridge_def
        Let_def)

lemma live_session_inv: "session_inv live_session"
  unfolding live_session_def by (rule inv_run[OF inv_init])

text \<open>
  C1. On a live session, a sequence of \<open>send\<close> calls returns the consecutive ids from the
  counter on, strictly increasing, and leaves each of them pending. A frame whose \<open>id\<close> is
  the key of a pending entry removes that key and calls that entry's \<open>reject\<close> with the
  frame's \<open>error\<close> when it has one (a truthy \<open>error\<close>), its \<open>resolve\<close> with the frame's
  \<open>result\<close> otherwise: one settlement, of that entry; the other entries and the rest of the
  state are untouched, and the same frame arriving again settles nothing. Along every run
  of the bridge from its construction the ids written to the socket increase, no entry is
  settled twice, and each id written is either still pending or settled.
\<close>

theorem send_response_correlation:
  "(isConnected b \<and> ws b \<and> session_inv b \<longrightarrow>
      fst (send_all ms b) = map (\<lambda>k. Some (requestId b + int k)) [0..<length ms]
      \<and> sorted_wrt (<) (map (\<lambda>k. requestId b + int k) [0..<length ms])
      \<and> pendingRequests (snd (send_all ms b)) =
          pendingRequests b @ map (\<lambda>k. requestId b + int k) [0..<length ms])
   \<and> (session_inv b \<and> field msg ''id'' = Some (JNum n) \<and> n \<in> set (pendingRequests b) \<longrightarrow>
      handleMessage (Some msg) b =
        b\<lparr>pendingRequests := removeAll n (pendingRequests b),
          settled := settled b @
            [(n, if truthy (field msg ''error'') then Rejected_with (Remote (the (field msg ''error'')))
                 else Resolved_with (field msg ''result''))]\<rparr>
      \<and> n \<notin> set (pendingRequests (handleMessage (Some msg) b))
      \<and> set (pendingRequests (handleMessage (Some msg) b)) = set (pendingRequests b) - {n}
      \<and> settled (handleMessage (Some msg) (handleMessage (Some msg) b)) =
          settled (handleMessage (Some msg) b))
   \<and> sorted_wrt (<) (map fst (wire (bridge_run es CdpBridge)))
   \<and> distinct (map fst (settled (bridge_run es CdpBridge)))
   \<and> set (pendingRequests (bridge_run es CdpBridge)) \<inter> fst ` set (settled (bridge_run es CdpBridge)) = {}
   \<and> set (pendingRequests (bridge_run es CdpBridge)) \<union> fst ` set (settled (bridge_run es CdpBridge)) =
       fst ` set (wire (bridge_run es CdpBridge))"
proof -
  have sends: "fst (send_all ms b) = map (\<lambda>k. Some (requestId b + int k)) [0..<length ms]
      \<and> sorted_wrt (<) (map (\<lambda>k. requestId b + int k) [0..<length ms])
      \<and> pendingRequests (snd (send_all ms b)) =
          pendingRequests b @ map (\<lambda>k. requestId b + int k) [0..<length ms]"
    if "isConnected b \<and> ws b \<and> session_inv b"
    using that send_all_live[of b ms] ids_increase[of "requestId b" "length ms"] by simp
  have resp: "handleMessage (Some msg) b =
        b\<lparr>pendingRequests := removeAll n (pendingRequests b),
          settled := settled b @
            [(n, if truthy (field msg ''error'') then Rejected_with (Remote (the (field msg ''error'')))
                 else Resolved_with (field msg ''result''))]\<rparr>
      \<and> n \<notin> set (pendingRequests (handleMessage (Some msg) b))
      \<and> set (pendingRequests (handleMessage (Some msg) b)) = set (pendingRequests b) - {n}
      \<and> settled (handleMessage (Some msg) (handleMessage (Some msg) b)) =
          settled (handleMessage (Some msg) b)"
    if a: "session_inv b \<and> field msg ''id'' = Some (JNum n) \<and> n \<in> set (pendingRequests b)"
  proof -
    from a have n0: "n \<noteq> 0" by (auto simp: session_inv_def)
    from a have id: "field msg ''id'' = Some (JNum n)" and mem: "n \<in> set (pendingRequests b)"
      by simp_all
    let ?b' = "handleMessage (Some msg) b"
    have e: "?b' = b\<lparr>pendingRequests := removeAll n (pendingRequests b),
          settled := settled b @
            [(n, if truthy (field msg ''error'') then Rejected_with (Remote (the (field msg ''error'')))
                 else Resolved_with (field msg ''result''))]\<rparr>"
      unfolding handleMessage_response[OF id n0 mem]
      by (cases "field msg ''error''") simp_all
    have gone: "n \<notin> set (pendingRequests ?b')" by (simp add: e)
    have "\<not> (\<exists>k. field msg ''id'' = Some (JNum k) \<and> k \<noteq> 0 \<and> k \<in> set (pendingRequests ?b'))"
      using id gone by auto
    from handleMessage_other[OF this] have "settled (handleMessage (Some msg) ?b') = settled ?b'"
      by (simp split: if_splits)
    with e gone show ?thesis by auto
  qed
  have inv: "session_inv (bridge_run es CdpBridge)" by (rule inv_run[OF inv_init])
  then have "sorted_wrt (<) (map fst (wire (bridge_run es CdpBridge)))
   \<and> distinct (map fst (settled (bridge_run es CdpBridge)))
   \<and> set (pendingRequests (bridge_run es CdpBridge)) \<inter> fst ` set (settled (bridge_run es CdpBridge)) = {}
   \<and> set (pendingRequests (bridge_run es CdpBridge)) \<union> fst ` set (settled (bridge_run es CdpBridge)) =
       fst ` set (wire (bridge_run es CdpBridge))"
    unfolding session_inv_def by blast
  with sends resp show ?thesis by blast
qed

theorem send_response_correlation_witness:
  "session_inv live_session
   \<and> isConnected live_session \<and> ws live_session
   \<and> requestId live_session = 3 \<and> pendingRequests live_session = [1, 2]
   \<and> fst (send_all [(''Runtime.evaluate'', JObj []), (''DOM.enable'', JObj [])] live_session) = [Some 3, Some 4]
   \<and> pendingRequests (snd (send_all [(''Runtime.evaluate'', JObj []), (''DOM.enable'', JObj [])] live_session))
        = [1, 2, 3, 4]
   \<and> field response_2 ''id'' = Some (JNum 2)
   \<and> pendingRequests (handleMessage (Some response_2) live_session) = [1]
   \<and> settled (handleMessage (Some response_2) live_session) =
        [(2, Resolved_with (Some (JObj [(''result'', JObj [(''value'', JBool True)])])))]
   \<and> field error_2 ''id'' = Some (JNum 2)
   \<and> pendingRequests (handleMessage (Some error_2) live_session) = [1]
   \<and> settled (handleMessage (Some error_2) live_session) =
        [(2, Rejected_with (Remote (JObj [(''code'', JNum (- 32000)), (''message'', JStr ''Cannot find context'')])))]
   \<and> settled (handleMessage (Some response_2) (handleMessage (Some error_2) live_session)) =
        [(2, Rejected_with (Remote (JObj [(''code'', JNum (- 32000)), (''message'', JStr ''Cannot find context'')])))]"
proof -
  have l: "isConnected live_session \<and> ws live_session \<and> session_inv live_session"
    "requestId live_session = 3" "pendingRequests live_session = [1, 2]" "settled live_session = []"
    using live_session_inv by (simp_all add: live_session_eq)
  have r: "field response_2 ''id'' = Some (JNum 2)" "field response_2 ''error'' = None"
    "field response_2 ''result'' = Some (JObj [(''result'', JObj [(''value'', JBool True)])])"
    by (simp_all add: response_2_def)
  have e: "field error_2 ''id'' = Some (JNum 2)"
    "field error_2 ''error'' = Some (JObj [(''code'', JNum (- 32000)), (''message'', JStr ''Cannot find context'')])"
    by (simp_all add: error_2_def)
  have u: "[0..<2] = [0, 1]" by (simp add: upt_conv_Cons)
  note t1 = send_response_correlation[of live_session "[(''Runtime.evaluate'', JObj []), (''DOM.enable'', JObj [])]" response_2 2 "[]"]
  note t2 = send_response_correlation[of live_session "[]" error_2 2 "[]"]
  have a: "fst (send_all [(''Runtime.evaluate'', JObj []), (''DOM.enable'', JObj [])] live_session) = [Some 3, Some 4]
     \<and> pendingRequests (snd (send_all [(''Runtime.evaluate'', JObj []), (''DOM.enable'', JObj [])] live_session))
        = [1, 2, 3, 4]"
    using t1 l by (simp add: u)
  have b: "handleMessage (Some response_2) live_session =
      live_session\<lparr>pendingRequests := [1],
         settled := [(2, Resolved_with (Some (JObj [(''result'', JObj [(''value'', JBool True)])])))]\<rparr>"
    using t1 l r by simp
  have c: "handleMessage (Some error_2) live_session =
      live_session\<lparr>pendingRequests := [1],
         settled := [(2, Rejected_with (Remote (JObj [(''code'', JNum (- 32000)), (''message'', JStr ''Cannot find context'')])))]\<rparr>"
    using t2 l e by simp
  have d: "settled (handleMessage (Some response_2) (handleMessage (Some error_2) live_session)) =
        [(2, Rejected_with (Remote (JObj [(''code'', JNum (- 32000)), (''message'', JStr ''Cannot find context'')])))]"
    unfolding c by (simp add: handleMessage_def response_2_def handle_event_def)
  from l a b c d r e show ?thesis by simp
qed

lemma on_close_eq:
  "on_close b =
     b\<lparr>isConnected := False, contexts := [], ws := False,
       settled := settled b @ map (\<lambda>i. (i, Rejected_with Connection_closed)) (pendingRequests b),
       pendingRequests := [],
       reconnectTimer := True,
       timers := (if reconnectTimer b then timers b else timers b + 1)\<rparr>"
  by (simp add: on_close_def cleanup_def scheduleReconnect_def)

lemma rejected_once:
  assumes "session_inv b"
  shows "filter (\<lambda>e. fst e \<in> set (pendingRequests b)) (settled (on_close b)) =
           map (\<lambda>i. (i, Rejected_with Connection_closed)) (pendingRequests b)"
proof -
  from assms have d: "set (pendingRequests b) \<inter> fst ` set (settled b) = {}"
    by (simp add: session_inv_def)
  then have old: "filter (\<lambda>e. fst e \<in> set (pendingRequests b)) (settled b) = []"
    by (auto simp: filter_empty_conv)
  have new: "filter (\<lambda>e. fst e \<in> set (pendingRequests b))
               (map (\<lambda>i. (i, Rejected_with Connection_closed)) (pendingRequests b)) =
             map (\<lambda>i. (i, Rejected_with Connection_closed)) (pendingRequests b)"
    by (simp add: filter_map comp_def)
  show ?thesis by (simp add: on_close_eq old new)
qed

text \<open>
  C2. The socket reports a closed connection by its \<open>close\<close> event, and an error by its
  \<open>error\<close> event followed by its \<open>close\<close> event; the handler of \<open>error\<close> logs and
  leaves the rest to the handler of \<open>close\<close>. Either way the bridge ends up marked
  disconnected, with an empty context registry and no socket; the \<open>reject\<close> of every
  entry that was pending has been called once with \<open>Connection closed\<close> and the pending
  map is empty; and a reconnect is scheduled unless one already is: closing twice is closing
  once, and along every run of the bridge at most one reconnect timeout is outstanding.
\<close>

theorem close_cleans_up_and_schedules_once:
  "bridge_run [Socket_close] b =
     b\<lparr>isConnected := False, contexts := [], ws := False,
       settled := settled b @ map (\<lambda>i. (i, Rejected_with Connection_closed)) (pendingRequests b),
       pendingRequests := [],
       reconnectTimer := True,
       timers := (if reconnectTimer b then timers b else timers b + 1)\<rparr>
   \<and> bridge_run [Socket_error, Socket_close] b = bridge_run [Socket_close] b
   \<and> bridge_run [Socket_close, Socket_close] b = bridge_run [Socket_close] b
   \<and> bridge_run [Socket_error, Socket_close, Socket_close] b = bridge_run [Socket_close] b
   \<and> on_close b = bridge_run [Socket_close] b
   \<and> on_error b = b
   \<and> scheduleReconnect b =
       (if reconnectTimer b then b else b\<lparr>reconnectTimer := True, timers := timers b + 1\<rparr>)
   \<and> scheduleReconnect (scheduleReconnect b) = scheduleReconnect b
   \<and> (session_inv b \<longrightarrow>
        filter (\<lambda>e. fst e \<in> set (pendingRequests b)) (settled (on_close b)) =
          map (\<lambda>i. (i, Rejected_with Connection_closed)) (pendingRequests b)
        \<and> distinct (map fst (settled (on_close b)))
        \<and> timers (on_close b) = 1)
   \<and> timers (bridge_run es CdpBridge) \<le> 1
   \<and> timers (bridge_run es CdpBridge) = (if reconnectTimer (bridge_run es CdpBridge) then 1 else 0)"
proof -
  have twice: "on_close (on_close b) = on_close b"
    by (simp add: on_close_def cleanup_def scheduleReconnect_def)
  have err: "on_error b = b" by (simp add: on_error_def)
  have sched: "scheduleReconnect (scheduleReconnect b) = scheduleReconnect b"
    by (simp add: scheduleReconnect_def)
  have r1: "bridge_run [Socket_close] b = on_close b" by simp
  have r2: "bridge_run [Socket_error, Socket_close] b = on_close b" by (simp add: err)
  have r3: "bridge_run [Socket_close, Socket_close] b = on_close b" by (simp add: twice)
  have r4: "bridge_run [Socket_error, Socket_close, Socket_close] b = on_close b"
    by (simp add: err twice)
  have under: "filter (\<lambda>e. fst e \<in> set (pendingRequests b)) (settled (on_close b)) =
          map (\<lambda>i. (i, Rejected_with Connection_closed)) (pendingRequests b)
        \<and> distinct (map fst (settled (on_close b)))
        \<and> timers (on_close b) = 1" if inv: "session_inv b"
  proof -
    from inv_on_close[OF inv] have "distinct (map fst (settled (on_close b)))"
      and "timers (on_close b) = (if reconnectTimer (on_close b) then 1 else 0)"
      by (simp_all add: session_inv_def)
    moreover have "reconnectTimer (on_close b)" by (simp add: on_close_eq)
    ultimately show ?thesis using rejected_once[OF inv] by simp
  qed
  have "session_inv (bridge_run es CdpBridge)" by (rule inv_run[OF inv_init])
  then have t: "timers (bridge_run es CdpBridge) = (if reconnectTimer (bridge_run es CdpBridge) then 1 else 0)"
    by (simp add: session_inv_def)
  then have run: "timers (bridge_run es CdpBridge) \<le> 1
     \<and> timers (bridge_run es CdpBridge) = (if reconnectTimer (bridge_run es CdpBridge) then 1 else 0)"
    by simp
  show ?thesis
    unfolding r1 r2 r3 r4 using on_close_eq[of b] err sched under run scheduleReconnect_def[of b]
    by blast
qed

theorem close_cleans_up_and_schedules_once_witness:
  "session_inv live_session
   \<and> isConnected live_session \<and> pendingRequests live_session = [1, 2] \<and> timers live_session = 0
   \<and> bridge_run [Socket_close] live_session =
        live_session\<lparr>isConnected := False, contexts := [], ws := False,
          settled := [(1, Rejected_with Connection_closed), (2, Rejected_with Connection_closed)],
          pendingRequests := [], reconnectTimer := True, timers := 1\<rparr>
   \<and> bridge_run [Socket_error, Socket_close] live_session =
        live_session\<lparr>isConnected := False, contexts := [], ws := False,
          settled := [(1, Rejected_with Connection_closed), (2, Rejected_with Connection_closed)],
          pendingRequests := [], reconnectTimer := True, timers := 1\<rparr>
   \<and> filter (\<lambda>e. fst e \<in> set (pendingRequests live_session)) (settled (on_close live_session)) =
        [(1, Rejected_with Connection_closed), (2, Rejected_with Connection_closed)]
   \<and> timers (on_close live_session) = 1
   \<and> timers (bridge_run [Socket_error, Socket_close, Socket_close] live_session) = 1
   \<and> timers (bridge_run [Socket_close, Socket_error, Socket_close, Find_target No_target] live_session) = 1"
proof -
  have l: "session_inv live_session" by (rule live_session_inv)
  have e: "isConnected live_session" "pendingRequests live_session = [1, 2]" "timers live_session = 0"
    "settled live_session = []" "reconnectTimer live_session = False"
    by (simp_all add: live_session_eq)
  note t = close_cleans_up_and_schedules_once[of live_session "[]"]
  have c: "bridge_run [Socket_close] live_session =
     live_session\<lparr>isConnected := False, contexts := [], ws := False,
       settled := [(1, Rejected_with Connection_closed), (2, Rejected_with Connection_closed)],
       pendingRequests := [], reconnectTimer := True, timers := 1\<rparr>"
    using t[THEN conjunct1] by (simp add: e)
  have ec: "bridge_run [Socket_error, Socket_close] live_session = bridge_run [Socket_close] live_session"
    by (rule t[THEN conjunct2, THEN conjunct1])
  have ecc: "bridge_run [Socket_error, Socket_close, Socket_close] live_session =
             bridge_run [Socket_close] live_session"
    by (rule t[THEN conjunct2, THEN conjunct2, THEN conjunct2, THEN conjunct1])
  have oc: "on_close live_session = bridge_run [Socket_close] live_session"
    by (rule t[THEN conjunct2, THEN conjunct2, THEN conjunct2, THEN conjunct2, THEN conjunct1])
  have u: "filter (\<lambda>e. fst e \<in> set (pendingRequests live_session)) (settled (on_close live_session)) =
          map (\<lambda>i. (i, Rejected_with Connection_closed)) (pendingRequests live_session)
        \<and> distinct (map fst (settled (on_close live_session)))
        \<and> timers (on_close live_session) = 1"
    using t l by blast
  have r: "bridge_run [Socket_close, Socket_error, Socket_close, Find_target No_target] live_session =
           bridge_run [Socket_close] live_session"
  proof -
    have "bridge_run [Socket_close, Socket_error, Socket_close, Find_target No_target] live_session =
          connect No_target (bridge_run [Socket_error, Socket_close] (bridge_run [Socket_close] live_session))"
      by simp
    also have "\<dots> = connect No_target (bridge_run [Socket_close] (bridge_run [Socket_close] live_session))"
      by (simp only: close_cleans_up_and_schedules_once[of "bridge_run [Socket_close] live_session" "[]",
            THEN conjunct2, THEN conjunct1])
    also have "\<dots> = connect No_target (bridge_run [Socket_close] live_session)"
    proof -
      have "bridge_run [Socket_close] (bridge_run [Socket_close] live_session) =
            bridge_run [Socket_close] live_session"
        using t[THEN conjunct2, THEN conjunct2, THEN conjunct1] by simp
      then show ?thesis by (simp only:)
    qed
    also have "\<dots> = bridge_run [Socket_close] live_session"
      unfolding c by (simp add: connect_def scheduleReconnect_def)
    finally show ?thesis .
  qed
  have f: "filter (\<lambda>e. fst e \<in> set (pendingRequests live_session)) (settled (on_close live_session)) =
        [(1, Rejected_with Connection_closed), (2, Rejected_with Connection_closed)]"
    using u by (simp add: e)
  have t1: "timers (on_close live_session) = 1" using u by simp
  have t2: "timers (bridge_run [Socket_error, Socket_close, Socket_close] live_session) = 1"
    unfolding ecc oc[symmetric] by (rule t1)
  have t3: "timers (bridge_run [Socket_close, Socket_error, Socket_close, Find_target No_target] live_session) = 1"
    unfolding r oc[symmetric] by (rule t1)
  have c': "bridge_run [Socket_error, Socket_close] live_session =
     live_session\<lparr>isConnected := False, contexts := [], ws := False,
       settled := [(1, Rejected_with Connection_closed), (2, Rejected_with Connection_closed)],
       pendingRequests := [], reconnectTimer := True, timers := 1\<rparr>"
    unfolding ec by (rule c)
  have e1: "isConnected live_session" "pendingRequests live_session = [1, 2]" "timers live_session = 0"
    by (fact e)+
  show ?thesis
    by (intro conjI) (fact l e1 c c' f t1 t2 t3)+
qed

end
